theory Spec2Isabelle
  imports Main
begin

section \<open>The execution host, as the helpers see it\<close>

text \<open>
  The four factories of \<^verbatim>\<open>src/helpers/requestHelpers.ts\<close> return \<^verbatim>\<open>async\<close> functions that
  run inside a single-threaded, cooperative workflow. Such a function runs until it
  suspends at an \<^verbatim>\<open>await\<close>; from then on the host drives it. The host can
  \<^item> deliver a signal, which runs the handler registered for that signal definition
    atomically (one constructor per signal definition that a factory receives);
  \<^item> settle the promise of the activity call that is in flight (\<open>ActivitySettles\<close>);
  \<^item> let the suspended body run until it blocks again or leaves the function (\<open>Resume\<close>).
  A schedule is a list of such events. Several events may occur between two \<open>Resume\<close>s: the
  host may deliver more than one signal before the body gets to run.
\<close>

datatype sigdef =
    DoneSignalDef | SubmissionSignalDef | FinishSignalDef | UpdateSignalDef | CompleteSignalDef

datatype ('fin, 'sub, 'prog) event =
    DoneSignal 'fin
  | SubmissionSignal 'sub
  | FinishSignal 'fin
  | UpdateSignal 'prog
  | CompleteSignal 'fin
  | ActivitySettles
  | Resume

text \<open>\<^verbatim>\<open>setHandler(def, fn)\<close>: the registry records which definitions have a handler.\<close>

definition setHandler :: "sigdef \<Rightarrow> sigdef set \<Rightarrow> sigdef set" where
  "setHandler d hs = insert d hs"

text \<open>
  The promise returned by the activity call. The activity is a parameter of the factory;
  here it is a function from its arguments to its outcome, \<open>Inl e\<close> when it rejects with
  \<open>e\<close> and \<open>Inr r\<close> when it resolves to \<open>r\<close>. When the promise settles is the host's choice.
  A settled promise stays as it is.
\<close>

datatype ('args, 't, 'e) promise = InFlight 'args | Fulfilled 't | Rejected 'e

definition settle :: "('args \<Rightarrow> 'e + 't) \<Rightarrow> ('args, 't, 'e) promise \<Rightarrow> ('args, 't, 'e) promise" where
  "settle activityFn p =
     (case p of
        InFlight a \<Rightarrow> (case activityFn a of Inl e \<Rightarrow> Rejected e | Inr r \<Rightarrow> Fulfilled r)
      | Fulfilled r \<Rightarrow> Fulfilled r
      | Rejected e \<Rightarrow> Rejected e)"

text \<open>
  Where the body of an invocation stands: suspended at the \<^verbatim>\<open>await\<close> of the activity,
  suspended at \<^verbatim>\<open>await condition(...)\<close> (with the local that is live across the
  suspension), returned with a value, or left by an exception.
\<close>

datatype ('live, 'r, 'e) pc = AwaitActivity | AwaitCondition 'live | Returned 'r | Threw 'e

text \<open>
  An optional callback, \<^verbatim>\<open>if (cb) cb(x)\<close> or \<^verbatim>\<open>cb?.(x)\<close>. A callback acts on the world
  outside the invocation, of type \<open>'w\<close>, and returns normally; it cannot reach the locals of
  the invocation.
\<close>

text \<open>
  A JavaScript value that may be \<^verbatim>\<open>undefined\<close> is an option, with \<open>None\<close> for
  \<^verbatim>\<open>undefined\<close>. The payload of a signal whose handler stores it (the submission signal of
  the loop, the complete signal of the progress request) is such a value: nothing in the
  code checks that a delivered payload is defined, and the handler stores it as it comes.
\<close>

definition callback :: "('x \<Rightarrow> 'w \<Rightarrow> 'w) option \<Rightarrow> 'x \<Rightarrow> 'w \<Rightarrow> 'w" where
  "callback cb x w = (case cb of None \<Rightarrow> w | Some c \<Rightarrow> c x w)"


section \<open>(1) \<^verbatim>\<open>createSyncWaitRequest\<close>\<close>

record ('args, 't, 'e) sw_state =
  sw_handlers :: "sigdef set"
  sw_promise :: "('args, 't, 'e) promise"
  sw_starts :: nat
  sw_pc :: "(unit, 't, 'e) pc"

text \<open>
  \<^verbatim>\<open>syncWait(...args)\<close> up to its only suspension: \<^verbatim>\<open>activityFn(...args)\<close> has been called once
  and its promise is awaited.
\<close>

definition syncWait :: "'args \<Rightarrow> ('args, 't, 'e) sw_state" where
  "syncWait args =
     \<lparr> sw_handlers = {}, sw_promise = InFlight args, sw_starts = 1, sw_pc = AwaitActivity \<rparr>"

text \<open>\<^verbatim>\<open>return await activityFn(...args)\<close>, once the body runs again.\<close>

definition syncWait_resume :: "('args, 't, 'e) sw_state \<Rightarrow> ('args, 't, 'e) sw_state" where
  "syncWait_resume s =
     (case sw_pc s of
        AwaitActivity \<Rightarrow>
          (case sw_promise s of
             InFlight a \<Rightarrow> s
           | Fulfilled r \<Rightarrow> s\<lparr>sw_pc := Returned r\<rparr>
           | Rejected e \<Rightarrow> s\<lparr>sw_pc := Threw e\<rparr>)
      | AwaitCondition u \<Rightarrow> s
      | Returned r \<Rightarrow> s
      | Threw e \<Rightarrow> s)"

text \<open>No handler is registered by this pattern, so a delivered signal runs no code of it.\<close>

fun syncWait_step ::
  "('args \<Rightarrow> 'e + 't) \<Rightarrow> ('fin, 'sub, 'prog) event \<Rightarrow> ('args, 't, 'e) sw_state
     \<Rightarrow> ('args, 't, 'e) sw_state" where
  "syncWait_step activityFn ActivitySettles s = s\<lparr>sw_promise := settle activityFn (sw_promise s)\<rparr>"
| "syncWait_step activityFn Resume s = syncWait_resume s"
| "syncWait_step activityFn (DoneSignal v) s = s"
| "syncWait_step activityFn (SubmissionSignal v) s = s"
| "syncWait_step activityFn (FinishSignal v) s = s"
| "syncWait_step activityFn (UpdateSignal v) s = s"
| "syncWait_step activityFn (CompleteSignal v) s = s"

definition syncWait_run ::
  "('args \<Rightarrow> 'e + 't) \<Rightarrow> ('fin, 'sub, 'prog) event list \<Rightarrow> ('args, 't, 'e) sw_state
     \<Rightarrow> ('args, 't, 'e) sw_state" where
  "syncWait_run activityFn evs s = foldl (\<lambda>s ev. syncWait_step activityFn ev s) s evs"

text \<open>The outcome of the activity call as the caller of \<^verbatim>\<open>syncWait\<close> sees it.\<close>

definition outcome_pc :: "'e + 't \<Rightarrow> ('live, 't, 'e) pc" where
  "outcome_pc x = (case x of Inl e \<Rightarrow> Threw e | Inr r \<Rightarrow> Returned r)"


section \<open>(2) \<^verbatim>\<open>createWaitForDoneRequest\<close>\<close>

record ('args, 't, 'e) wd_state =
  wd_handlers :: "sigdef set"
  wd_promise :: "('args, 't, 'e) promise"
  wd_starts :: nat
  wd_isDone :: bool
  wd_pc :: "('t, 't, 'e) pc"

text \<open>
  \<^verbatim>\<open>waitForDone(...activityArgs)\<close> up to its first suspension: \<^verbatim>\<open>isDone = false\<close>, the handler
  of the done signal is registered, then \<^verbatim>\<open>startActivity(...activityArgs)\<close> is called and
  its promise is awaited.
\<close>

definition waitForDone :: "'args \<Rightarrow> ('args, 't, 'e) wd_state" where
  "waitForDone activityArgs =
     \<lparr> wd_handlers = setHandler DoneSignalDef {},
       wd_promise = InFlight activityArgs,
       wd_starts = 1,
       wd_isDone = False,
       wd_pc = AwaitActivity \<rparr>"

text \<open>The handler \<^verbatim>\<open>() => { isDone = true; }\<close>: the payload of the signal is not read.\<close>

definition waitForDone_doneHandler :: "'fin \<Rightarrow> ('args, 't, 'e) wd_state \<Rightarrow> ('args, 't, 'e) wd_state" where
  "waitForDone_doneHandler v s = s\<lparr>wd_isDone := True\<rparr>"

text \<open>
  The body from where it is suspended. After the activity: \<^verbatim>\<open>const result = ...\<close>, then
  \<^verbatim>\<open>await condition(() => isDone)\<close>, which goes on at once when the flag is already set,
  then \<^verbatim>\<open>return result\<close>.
\<close>

definition waitForDone_resume :: "('args, 't, 'e) wd_state \<Rightarrow> ('args, 't, 'e) wd_state" where
  "waitForDone_resume s =
     (case wd_pc s of
        AwaitActivity \<Rightarrow>
          (case wd_promise s of
             InFlight a \<Rightarrow> s
           | Rejected e \<Rightarrow> s\<lparr>wd_pc := Threw e\<rparr>
           | Fulfilled result \<Rightarrow>
               if wd_isDone s then s\<lparr>wd_pc := Returned result\<rparr>
               else s\<lparr>wd_pc := AwaitCondition result\<rparr>)
      | AwaitCondition result \<Rightarrow> if wd_isDone s then s\<lparr>wd_pc := Returned result\<rparr> else s
      | Returned r \<Rightarrow> s
      | Threw e \<Rightarrow> s)"

fun waitForDone_step ::
  "('args \<Rightarrow> 'e + 't) \<Rightarrow> ('fin, 'sub, 'prog) event \<Rightarrow> ('args, 't, 'e) wd_state
     \<Rightarrow> ('args, 't, 'e) wd_state" where
  "waitForDone_step startActivity (DoneSignal v) s =
     (if DoneSignalDef \<in> wd_handlers s then waitForDone_doneHandler v s else s)"
| "waitForDone_step startActivity ActivitySettles s =
     s\<lparr>wd_promise := settle startActivity (wd_promise s)\<rparr>"
| "waitForDone_step startActivity Resume s = waitForDone_resume s"
| "waitForDone_step startActivity (SubmissionSignal v) s = s"
| "waitForDone_step startActivity (FinishSignal v) s = s"
| "waitForDone_step startActivity (UpdateSignal v) s = s"
| "waitForDone_step startActivity (CompleteSignal v) s = s"

definition waitForDone_run ::
  "('args \<Rightarrow> 'e + 't) \<Rightarrow> ('fin, 'sub, 'prog) event list \<Rightarrow> ('args, 't, 'e) wd_state
     \<Rightarrow> ('args, 't, 'e) wd_state" where
  "waitForDone_run startActivity evs s = foldl (\<lambda>s ev. waitForDone_step startActivity ev s) s evs"


section \<open>(3) \<^verbatim>\<open>createIterativeLoopRequest\<close>\<close>

text \<open>
  \<^verbatim>\<open>lastSubmission: Submission | undefined\<close> is an option, and so is the payload of a
  submission signal: the handler assigns the payload itself to the slot, so a submission
  that carries \<^verbatim>\<open>undefined\<close> leaves the slot empty.
\<close>

record ('sub, 'w) il_state =
  il_handlers :: "sigdef set"
  il_isDone :: bool
  il_lastSubmission :: "'sub option"
  il_pc :: "(unit, unit, unit) pc"
  il_world :: 'w

text \<open>The handler of the finish signal, \<^verbatim>\<open>() => { isDone = true; }\<close>.\<close>

definition iterativeLoop_finishHandler :: "'fin \<Rightarrow> ('sub, 'w) il_state \<Rightarrow> ('sub, 'w) il_state" where
  "iterativeLoop_finishHandler v s = s\<lparr>il_isDone := True\<rparr>"

text \<open>
  The handler of the submission signal:
  \<^verbatim>\<open>(sub) => { lastSubmission = sub; if (onSubmission) { onSubmission(sub); } }\<close>.
\<close>

definition iterativeLoop_submissionHandler ::
  "('sub option \<Rightarrow> 'w \<Rightarrow> 'w) option \<Rightarrow> 'sub option \<Rightarrow> ('sub, 'w) il_state
     \<Rightarrow> ('sub, 'w) il_state" where
  "iterativeLoop_submissionHandler onSubmission sub s =
     (let s1 = s\<lparr>il_lastSubmission := sub\<rparr>
      in s1\<lparr>il_world := callback onSubmission sub (il_world s1)\<rparr>)"

text \<open>
  The loop from its head, up to the next suspension or the return:
  \<^verbatim>\<open>while (!isDone) { await condition(() => lastSubmission !== undefined || isDone);
     if (isDone) break; lastSubmission = undefined; }\<close>.
  \<^verbatim>\<open>condition\<close> goes on at once when its predicate holds and suspends otherwise.
\<close>

function iterativeLoop_while :: "('sub, 'w) il_state \<Rightarrow> ('sub, 'w) il_state" where
  "iterativeLoop_while s =
     (if \<not> il_isDone s then
        (if il_lastSubmission s \<noteq> None \<or> il_isDone s then
           (if il_isDone s then s\<lparr>il_pc := Returned ()\<rparr>
            else iterativeLoop_while (s\<lparr>il_lastSubmission := None\<rparr>))
         else s\<lparr>il_pc := AwaitCondition ()\<rparr>)
      else s\<lparr>il_pc := Returned ()\<rparr>)"
  by pat_completeness auto
termination
  by (relation "measure (\<lambda>s. if il_lastSubmission s = None then 0 else 1)") auto

declare iterativeLoop_while.simps [simp del]

text \<open>
  \<^verbatim>\<open>iterativeLoop()\<close> up to its first suspension: both locals initialised, both handlers
  registered (finish first), then the loop is entered.
\<close>

definition iterativeLoop :: "'w \<Rightarrow> ('sub, 'w) il_state" where
  "iterativeLoop w =
     iterativeLoop_while
       \<lparr> il_handlers = setHandler SubmissionSignalDef (setHandler FinishSignalDef {}),
         il_isDone = False,
         il_lastSubmission = None,
         il_pc = AwaitCondition (),
         il_world = w \<rparr>"

text \<open>
  The body from its suspension inside the loop: the predicate is evaluated again; when it
  holds the loop goes on after the \<^verbatim>\<open>await\<close>.
\<close>

definition iterativeLoop_resume :: "('sub, 'w) il_state \<Rightarrow> ('sub, 'w) il_state" where
  "iterativeLoop_resume s =
     (case il_pc s of
        AwaitCondition u \<Rightarrow>
          if il_lastSubmission s \<noteq> None \<or> il_isDone s then
            (if il_isDone s then s\<lparr>il_pc := Returned ()\<rparr>
             else iterativeLoop_while (s\<lparr>il_lastSubmission := None\<rparr>))
          else s
      | AwaitActivity \<Rightarrow> s
      | Returned r \<Rightarrow> s
      | Threw e \<Rightarrow> s)"

fun iterativeLoop_step ::
  "('sub option \<Rightarrow> 'w \<Rightarrow> 'w) option \<Rightarrow> ('fin, 'sub option, 'prog) event \<Rightarrow> ('sub, 'w) il_state
     \<Rightarrow> ('sub, 'w) il_state" where
  "iterativeLoop_step onSubmission (FinishSignal v) s =
     (if FinishSignalDef \<in> il_handlers s then iterativeLoop_finishHandler v s else s)"
| "iterativeLoop_step onSubmission (SubmissionSignal sub) s =
     (if SubmissionSignalDef \<in> il_handlers s
      then iterativeLoop_submissionHandler onSubmission sub s else s)"
| "iterativeLoop_step onSubmission Resume s = iterativeLoop_resume s"
| "iterativeLoop_step onSubmission ActivitySettles s = s"
| "iterativeLoop_step onSubmission (DoneSignal v) s = s"
| "iterativeLoop_step onSubmission (UpdateSignal v) s = s"
| "iterativeLoop_step onSubmission (CompleteSignal v) s = s"

definition iterativeLoop_run ::
  "('sub option \<Rightarrow> 'w \<Rightarrow> 'w) option \<Rightarrow> ('fin, 'sub option, 'prog) event list
     \<Rightarrow> ('sub, 'w) il_state
     \<Rightarrow> ('sub, 'w) il_state" where
  "iterativeLoop_run onSubmission evs s =
     foldl (\<lambda>s ev. iterativeLoop_step onSubmission ev s) s evs"


section \<open>(6) \<^verbatim>\<open>createProgressReportingRequest\<close>\<close>

text \<open>
  \<^verbatim>\<open>finalData: Final | undefined\<close> is an option, and so is the value that
  \<^verbatim>\<open>return finalData!\<close> hands back: the assertion is erased when the code is compiled, so the
  function returns whatever the slot holds. The payload of a complete signal is an option
  too, and the handler assigns the payload itself to the slot.
\<close>

record ('args, 'ar, 'e, 'fin, 'w) pr_state =
  pr_handlers :: "sigdef set"
  pr_promise :: "('args, 'ar, 'e) promise"
  pr_starts :: nat
  pr_isDone :: bool
  pr_finalData :: "'fin option"
  pr_pc :: "(unit, 'fin option, 'e) pc"
  pr_world :: 'w

text \<open>
  \<^verbatim>\<open>progressRequest(...activityArgs)\<close> up to its first suspension: the locals initialised,
  the handlers of the update and of the complete signal registered, then
  \<^verbatim>\<open>startLongJobActivity(...activityArgs)\<close> called and its promise awaited.
\<close>

definition progressRequest :: "'args \<Rightarrow> 'w \<Rightarrow> ('args, 'ar, 'e, 'fin, 'w) pr_state" where
  "progressRequest activityArgs w =
     \<lparr> pr_handlers = setHandler CompleteSignalDef (setHandler UpdateSignalDef {}),
       pr_promise = InFlight activityArgs,
       pr_starts = 1,
       pr_isDone = False,
       pr_finalData = None,
       pr_pc = AwaitActivity,
       pr_world = w \<rparr>"

text \<open>\<^verbatim>\<open>(progressValue) => { if(!isDone) onProgress?.(progressValue); }\<close>\<close>

definition progressRequest_updateHandler ::
  "('prog \<Rightarrow> 'w \<Rightarrow> 'w) option \<Rightarrow> 'prog \<Rightarrow> ('args, 'ar, 'e, 'fin, 'w) pr_state
     \<Rightarrow> ('args, 'ar, 'e, 'fin, 'w) pr_state" where
  "progressRequest_updateHandler onProgress progressValue s =
     (if \<not> pr_isDone s then s\<lparr>pr_world := callback onProgress progressValue (pr_world s)\<rparr>
      else s)"

text \<open>\<^verbatim>\<open>(finalVal) => { if(!isDone) { finalData = finalVal; isDone = true; } }\<close>\<close>

definition progressRequest_completeHandler ::
  "'fin option \<Rightarrow> ('args, 'ar, 'e, 'fin, 'w) pr_state \<Rightarrow> ('args, 'ar, 'e, 'fin, 'w) pr_state" where
  "progressRequest_completeHandler finalVal s =
     (if \<not> pr_isDone s then s\<lparr>pr_finalData := finalVal, pr_isDone := True\<rparr> else s)"

text \<open>
  The body from where it is suspended. After the activity: \<^verbatim>\<open>onStarted\<close> is called when
  present, then \<^verbatim>\<open>await condition(() => isDone)\<close>, then \<^verbatim>\<open>return finalData!\<close>.
\<close>

definition progressRequest_resume ::
  "('ar \<Rightarrow> 'w \<Rightarrow> 'w) option \<Rightarrow> ('args, 'ar, 'e, 'fin, 'w) pr_state
     \<Rightarrow> ('args, 'ar, 'e, 'fin, 'w) pr_state" where
  "progressRequest_resume onStarted s =
     (case pr_pc s of
        AwaitActivity \<Rightarrow>
          (case pr_promise s of
             InFlight a \<Rightarrow> s
           | Rejected e \<Rightarrow> s\<lparr>pr_pc := Threw e\<rparr>
           | Fulfilled activityResult \<Rightarrow>
               (let s1 = s\<lparr>pr_world := callback onStarted activityResult (pr_world s)\<rparr>
                in if pr_isDone s1 then s1\<lparr>pr_pc := Returned (pr_finalData s1)\<rparr>
                   else s1\<lparr>pr_pc := AwaitCondition ()\<rparr>))
      | AwaitCondition u \<Rightarrow> if pr_isDone s then s\<lparr>pr_pc := Returned (pr_finalData s)\<rparr> else s
      | Returned r \<Rightarrow> s
      | Threw e \<Rightarrow> s)"

fun progressRequest_step ::
  "('args \<Rightarrow> 'e + 'ar) \<Rightarrow> ('ar \<Rightarrow> 'w \<Rightarrow> 'w) option \<Rightarrow> ('prog \<Rightarrow> 'w \<Rightarrow> 'w) option
     \<Rightarrow> ('fin option, 'sub, 'prog) event \<Rightarrow> ('args, 'ar, 'e, 'fin, 'w) pr_state
     \<Rightarrow> ('args, 'ar, 'e, 'fin, 'w) pr_state" where
  "progressRequest_step startLongJobActivity onStarted onProgress (UpdateSignal progressValue) s =
     (if UpdateSignalDef \<in> pr_handlers s
      then progressRequest_updateHandler onProgress progressValue s else s)"
| "progressRequest_step startLongJobActivity onStarted onProgress (CompleteSignal finalVal) s =
     (if CompleteSignalDef \<in> pr_handlers s
      then progressRequest_completeHandler finalVal s else s)"
| "progressRequest_step startLongJobActivity onStarted onProgress ActivitySettles s =
     s\<lparr>pr_promise := settle startLongJobActivity (pr_promise s)\<rparr>"
| "progressRequest_step startLongJobActivity onStarted onProgress Resume s =
     progressRequest_resume onStarted s"
| "progressRequest_step startLongJobActivity onStarted onProgress (DoneSignal v) s = s"
| "progressRequest_step startLongJobActivity onStarted onProgress (SubmissionSignal v) s = s"
| "progressRequest_step startLongJobActivity onStarted onProgress (FinishSignal v) s = s"

definition progressRequest_run ::
  "('args \<Rightarrow> 'e + 'ar) \<Rightarrow> ('ar \<Rightarrow> 'w \<Rightarrow> 'w) option \<Rightarrow> ('prog \<Rightarrow> 'w \<Rightarrow> 'w) option
     \<Rightarrow> ('fin option, 'sub, 'prog) event list \<Rightarrow> ('args, 'ar, 'e, 'fin, 'w) pr_state
     \<Rightarrow> ('args, 'ar, 'e, 'fin, 'w) pr_state" where
  "progressRequest_run startLongJobActivity onStarted onProgress evs s =
     foldl (\<lambda>s ev. progressRequest_step startLongJobActivity onStarted onProgress ev s) s evs"


section \<open>Reading a schedule\<close>

text \<open>Which events of a schedule deliver a completion signal.\<close>

fun is_DoneSignal :: "('fin, 'sub, 'prog) event \<Rightarrow> bool" where
  "is_DoneSignal (DoneSignal v) = True"
| "is_DoneSignal ev = False"

fun is_CompleteSignal :: "('fin, 'sub, 'prog) event \<Rightarrow> bool" where
  "is_CompleteSignal (CompleteSignal v) = True"
| "is_CompleteSignal ev = False"

text \<open>The payloads of the submission signals of a schedule, in delivery order.\<close>

fun submissions :: "('fin, 'sub, 'prog) event list \<Rightarrow> 'sub list" where
  "submissions [] = []"
| "submissions (SubmissionSignal sub # evs) = sub # submissions evs"
| "submissions (ev # evs) = submissions evs"

text \<open>The payloads of the update signals of a schedule, in delivery order.\<close>

fun updates :: "('fin, 'sub, 'prog) event list \<Rightarrow> 'prog list" where
  "updates [] = []"
| "updates (UpdateSignal p # evs) = p # updates evs"
| "updates (ev # evs) = updates evs"

text \<open>The payloads of the update signals delivered before the first complete signal.\<close>

fun accepted_updates :: "('fin, 'sub, 'prog) event list \<Rightarrow> 'prog list" where
  "accepted_updates [] = []"
| "accepted_updates (UpdateSignal p # evs) = p # accepted_updates evs"
| "accepted_updates (CompleteSignal f # evs) = []"
| "accepted_updates (ev # evs) = accepted_updates evs"

text \<open>
  The payload of the first complete signal of a schedule, \<open>None\<close> when there is none.
  \<open>first_payload\<close> reads it where the payload is itself an option: it is \<open>None\<close> also when
  the first complete signal carries \<^verbatim>\<open>undefined\<close>.
\<close>

fun first_complete :: "('fin, 'sub, 'prog) event list \<Rightarrow> 'fin option" where
  "first_complete [] = None"
| "first_complete (CompleteSignal f # evs) = Some f"
| "first_complete (ev # evs) = first_complete evs"

definition first_payload :: "('fin option, 'sub, 'prog) event list \<Rightarrow> 'fin option" where
  "first_payload evs = (case first_complete evs of None \<Rightarrow> None | Some finalVal \<Rightarrow> finalVal)"


section \<open>Properties of \<^verbatim>\<open>syncWait\<close>\<close>

lemma syncWait_run_snoc:
  "syncWait_run f (evs @ [ev]) s = syncWait_step f ev (syncWait_run f evs s)"
  by (simp add: syncWait_run_def)

lemma syncWait_invariant:
  "sw_handlers (syncWait_run f evs (syncWait a)) = {} \<and>
   sw_starts (syncWait_run f evs (syncWait a)) = 1 \<and>
   sw_promise (syncWait_run f evs (syncWait a)) =
     (if ActivitySettles \<in> set evs then settle f (InFlight a) else InFlight a) \<and>
   (sw_pc (syncWait_run f evs (syncWait a)) = AwaitActivity \<or>
    ActivitySettles \<in> set evs \<and> sw_pc (syncWait_run f evs (syncWait a)) = outcome_pc (f a))"
proof (induction evs rule: rev_induct)
  case Nil
  show ?case by (simp add: syncWait_run_def syncWait_def)
next
  case (snoc ev evs)
  then show ?case
    by (cases ev)
       (auto simp: syncWait_run_snoc syncWait_resume_def settle_def outcome_pc_def
             split: sum.splits pc.splits promise.splits)
qed

text \<open>
  C8. For every operation and argument list, \<^verbatim>\<open>syncWait\<close> registers no signal handler and
  calls the operation once, whatever the host does; it leaves the function only after the
  call has settled, and then exactly as the call did: it returns \<open>r\<close> when the operation
  resolves to \<open>r\<close> and throws \<open>e\<close>, unchanged, when the operation rejects with \<open>e\<close>. Once the
  call has settled, the next run of the body leaves the function that way.
\<close>

theorem syncWait_returns_or_propagates:
  "sw_handlers (syncWait_run activityFn evs (syncWait args)) = {} \<and>
   sw_starts (syncWait_run activityFn evs (syncWait args)) = 1 \<and>
   (sw_pc (syncWait_run activityFn evs (syncWait args)) \<noteq> AwaitActivity \<longrightarrow>
      ActivitySettles \<in> set evs \<and>
      sw_pc (syncWait_run activityFn evs (syncWait args)) = outcome_pc (activityFn args)) \<and>
   (ActivitySettles \<in> set evs \<longrightarrow>
      sw_pc (syncWait_run activityFn (evs @ [Resume]) (syncWait args)) =
        outcome_pc (activityFn args))"
proof -
  let ?s = "syncWait_run activityFn evs (syncWait args)"
  note inv = syncWait_invariant [of activityFn evs args]
  have "ActivitySettles \<in> set evs \<Longrightarrow>
        sw_pc (syncWait_step activityFn Resume ?s) = outcome_pc (activityFn args)"
    using inv
    by (auto simp: syncWait_resume_def settle_def outcome_pc_def split: sum.splits)
  then show ?thesis
    using inv by (auto simp: syncWait_run_snoc)
qed

theorem syncWait_returns_or_propagates_witness:
  "sw_pc (syncWait_run (\<lambda>n::nat. if n = 0 then Inl ''boom'' else Inr (n + 41))
            [DoneSignal (), ActivitySettles, Resume :: (unit, unit, unit) event]
            (syncWait 1)) = Returned 42 \<and>
   sw_pc (syncWait_run (\<lambda>n::nat. if n = 0 then Inl ''boom'' else Inr (n + 41))
            [ActivitySettles, Resume :: (unit, unit, unit) event] (syncWait 0)) = Threw ''boom''"
  using syncWait_returns_or_propagates
          [of "\<lambda>n::nat. if n = 0 then Inl ''boom'' else Inr (n + 41)"
              "[DoneSignal (), ActivitySettles] :: (unit, unit, unit) event list" 1]
        syncWait_returns_or_propagates
          [of "\<lambda>n::nat. if n = 0 then Inl ''boom'' else Inr (n + 41)"
              "[ActivitySettles] :: (unit, unit, unit) event list" 0]
  by (simp add: outcome_pc_def)


section \<open>Properties of \<^verbatim>\<open>waitForDone\<close>\<close>


lemma waitForDone_run_snoc:
  "waitForDone_run f (evs @ [ev]) s = waitForDone_step f ev (waitForDone_run f evs s)"
  by (simp add: waitForDone_run_def)

lemma waitForDone_resume_fields:
  "wd_handlers (waitForDone_resume s) = wd_handlers s"
  "wd_starts (waitForDone_resume s) = wd_starts s"
  "wd_isDone (waitForDone_resume s) = wd_isDone s"
  "wd_promise (waitForDone_resume s) = wd_promise s"
  by (simp_all add: waitForDone_resume_def split: pc.splits promise.splits)

lemma waitForDone_handlers:
  "wd_handlers (waitForDone_run f evs (waitForDone a)) = {DoneSignalDef}"
proof (induction evs rule: rev_induct)
  case Nil
  show ?case by (simp add: waitForDone_run_def waitForDone_def setHandler_def)
next
  case (snoc ev evs)
  then show ?case
    by (cases ev)
       (simp_all add: waitForDone_run_snoc waitForDone_resume_fields waitForDone_doneHandler_def)
qed

lemma waitForDone_starts:
  "wd_starts (waitForDone_run f evs (waitForDone a)) = 1"
proof (induction evs rule: rev_induct)
  case Nil
  show ?case by (simp add: waitForDone_run_def waitForDone_def)
next
  case (snoc ev evs)
  then show ?case
    by (cases ev)
       (simp_all add: waitForDone_run_snoc waitForDone_resume_fields waitForDone_doneHandler_def)
qed

lemma waitForDone_isDone:
  "wd_isDone (waitForDone_run f evs (waitForDone a)) \<longleftrightarrow> (\<exists>v. DoneSignal v \<in> set evs)"
proof (induction evs rule: rev_induct)
  case Nil
  show ?case by (simp add: waitForDone_run_def waitForDone_def)
next
  case (snoc ev evs)
  then show ?case
    by (cases ev)
       (auto simp: waitForDone_run_snoc waitForDone_resume_fields waitForDone_doneHandler_def
                   waitForDone_handlers)
qed

lemma waitForDone_promise:
  "wd_promise (waitForDone_run f evs (waitForDone a)) =
     (if ActivitySettles \<in> set evs then settle f (InFlight a) else InFlight a)"
proof (induction evs rule: rev_induct)
  case Nil
  show ?case by (simp add: waitForDone_run_def waitForDone_def)
next
  case (snoc ev evs)
  then show ?case
    by (cases ev)
       (auto simp: waitForDone_run_snoc waitForDone_resume_fields waitForDone_doneHandler_def
                   settle_def split: sum.splits)
qed


lemma waitForDone_left_await:
  "wd_pc (waitForDone_run f evs (waitForDone a)) \<noteq> AwaitActivity \<Longrightarrow> ActivitySettles \<in> set evs"
proof (induction evs rule: rev_induct)
  case Nil
  then show ?case by (simp add: waitForDone_run_def waitForDone_def)
next
  case (snoc ev evs)
  show ?case
  proof (cases ev)
    case Resume
    with snoc show ?thesis
      using waitForDone_promise [of f evs a]
      by (auto simp: waitForDone_run_snoc waitForDone_resume_def split: pc.splits if_splits)
  qed (use snoc in \<open>auto simp: waitForDone_run_snoc waitForDone_doneHandler_def split: if_splits\<close>)
qed

lemma waitForDone_returned_done:
  "wd_pc (waitForDone_run f evs (waitForDone a)) = Returned x \<Longrightarrow>
   wd_isDone (waitForDone_run f evs (waitForDone a))"
proof (induction evs rule: rev_induct)
  case Nil
  then show ?case by (simp add: waitForDone_run_def waitForDone_def)
next
  case (snoc ev evs)
  show ?case
  proof (cases ev)
    case Resume
    with snoc show ?thesis
      by (auto simp: waitForDone_run_snoc waitForDone_resume_def
               split: pc.splits promise.splits if_splits)
  qed (use snoc in \<open>auto simp: waitForDone_run_snoc waitForDone_doneHandler_def split: if_splits\<close>)
qed

lemma waitForDone_pc_result:
  "(wd_pc (waitForDone_run f evs (waitForDone a)) = AwaitCondition x \<longrightarrow> f a = Inr x) \<and>
   (wd_pc (waitForDone_run f evs (waitForDone a)) = Returned x \<longrightarrow> f a = Inr x) \<and>
   (wd_pc (waitForDone_run f evs (waitForDone a)) = Threw e \<longrightarrow> f a = Inl e)"
proof (induction evs rule: rev_induct)
  case Nil
  then show ?case by (simp add: waitForDone_run_def waitForDone_def)
next
  case (snoc ev evs)
  show ?case
  proof (cases ev)
    case Resume
    with snoc show ?thesis
      using waitForDone_promise [of f evs a]
      by (auto simp: waitForDone_run_snoc waitForDone_resume_def settle_def
               split: pc.splits promise.splits if_splits sum.splits)
  qed (use snoc in \<open>auto simp: waitForDone_run_snoc waitForDone_doneHandler_def split: if_splits\<close>)
qed

lemma waitForDone_step_payload:
  "waitForDone_step f (map_event g h k ev) s = waitForDone_step f ev s"
  by (cases ev) (simp_all add: waitForDone_doneHandler_def)

lemma waitForDone_run_payload:
  "waitForDone_run f (map (map_event g h k) evs) s = waitForDone_run f evs s"
  by (induction evs arbitrary: s) (simp_all add: waitForDone_run_def waitForDone_step_payload)

lemma waitForDone_returns:
  assumes "f a = Inr r" "ActivitySettles \<in> set evs" "DoneSignal v \<in> set evs"
  shows "wd_pc (waitForDone_run f (evs @ [Resume]) (waitForDone a)) = Returned r"
proof -
  let ?s = "waitForDone_run f evs (waitForDone a)"
  have d: "wd_isDone ?s" using assms(3) by (auto simp: waitForDone_isDone)
  have p: "wd_promise ?s = Fulfilled r"
    using assms(1,2) by (simp add: waitForDone_promise settle_def)
  have "wd_pc ?s = AwaitActivity \<or> wd_pc ?s = AwaitCondition r \<or> wd_pc ?s = Returned r"
    using waitForDone_pc_result [of f evs a] assms(1)
    by (cases "wd_pc ?s") auto
  then show ?thesis
    using d p by (auto simp: waitForDone_run_snoc waitForDone_resume_def)
qed

text \<open>
  C1. Whatever the host does, a value that \<^verbatim>\<open>waitForDone\<close> returns is the result of the
  start activity; replacing the payloads of the signals of a schedule by any others leaves
  the whole run as it is, so the payload of the done signal is discarded; and when the
  activity resolves to \<open>r\<close> and a done signal is delivered, in any order and with any
  payload, the next run of the body returns \<open>r\<close>.
\<close>

theorem waitForDone_returns_activity_result:
  "(\<forall>x. wd_pc (waitForDone_run startActivity evs (waitForDone activityArgs)) = Returned x \<longrightarrow>
        startActivity activityArgs = Inr x) \<and>
   waitForDone_run startActivity (map (map_event g h k) evs) (waitForDone activityArgs) =
     waitForDone_run startActivity evs (waitForDone activityArgs) \<and>
   (startActivity activityArgs = Inr r \<and> ActivitySettles \<in> set evs \<and> DoneSignal v \<in> set evs \<longrightarrow>
      wd_pc (waitForDone_run startActivity (evs @ [Resume]) (waitForDone activityArgs)) = Returned r \<and>
      wd_pc (waitForDone_run startActivity (map (map_event g h k) evs @ [Resume])
               (waitForDone activityArgs)) = Returned r)"
proof -
  have "DoneSignal (g v) \<in> set (map (map_event g h k) evs)" if "DoneSignal v \<in> set evs"
    using that by force
  moreover have "ActivitySettles \<in> set (map (map_event g h k) evs)" if "ActivitySettles \<in> set evs"
    using that by force
  ultimately show ?thesis
    using waitForDone_pc_result [of startActivity evs activityArgs]
    by (auto simp: waitForDone_run_payload intro!: waitForDone_returns)
qed

theorem waitForDone_returns_activity_result_witness:
  "(\<lambda>n::nat. Inr (n + 1) :: string + nat) 1 = Inr 2 \<and>
   ActivitySettles \<in> set [DoneSignal ''summary'', ActivitySettles :: (string, unit, unit) event] \<and>
   DoneSignal ''summary'' \<in> set [DoneSignal ''summary'', ActivitySettles :: (string, unit, unit) event] \<and>
   wd_pc (waitForDone_run (\<lambda>n::nat. Inr (n + 1) :: string + nat)
            [DoneSignal ''summary'', ActivitySettles, Resume :: (string, unit, unit) event]
            (waitForDone 1)) = Returned 2 \<and>
   wd_pc (waitForDone_run (\<lambda>n::nat. Inr (n + 1) :: string + nat)
            [DoneSignal (7::nat), ActivitySettles, Resume :: (nat, unit, unit) event]
            (waitForDone 1)) = Returned 2"
  using waitForDone_returns_activity_result
          [of "\<lambda>n::nat. Inr (n + 1) :: string + nat"
              "[DoneSignal ''summary'', ActivitySettles] :: (string, unit, unit) event list"
              1 "\<lambda>_. 7::nat" id id 2 "''summary''"]
  by simp

text \<open>
  C6. \<^verbatim>\<open>waitForDone\<close> reaches its first suspension with the activity started once and the
  handler of the done signal registered; the activity is never started again; a done signal
  sets the flag whenever it is delivered, also before the activity has settled; the function
  returns only when the activity has settled and a done signal has been delivered; and for
  both orders of these two events, with any other events around them, the next run of the
  body returns the result of the activity.
\<close>

theorem waitForDone_waits_for_both:
  fixes startActivity :: "'args \<Rightarrow> 'e + 't"
    and evs pre mid post :: "('fin, 'sub, 'prog) event list"
  shows
  "wd_starts (waitForDone activityArgs :: ('args, 't, 'e) wd_state) = 1 \<and>
   DoneSignalDef \<in> wd_handlers (waitForDone activityArgs :: ('args, 't, 'e) wd_state) \<and>
   wd_pc (waitForDone activityArgs :: ('args, 't, 'e) wd_state) = AwaitActivity \<and>
   wd_starts (waitForDone_run startActivity evs (waitForDone activityArgs)) = 1 \<and>
   (wd_isDone (waitForDone_run startActivity evs (waitForDone activityArgs)) \<longleftrightarrow>
      (\<exists>v. DoneSignal v \<in> set evs)) \<and>
   (\<forall>x. wd_pc (waitForDone_run startActivity evs (waitForDone activityArgs)) = Returned x \<longrightarrow>
        ActivitySettles \<in> set evs \<and> (\<exists>v. DoneSignal v \<in> set evs)) \<and>
   (startActivity activityArgs = Inr r \<longrightarrow>
      wd_pc (waitForDone_run startActivity
               (pre @ [DoneSignal v] @ mid @ [ActivitySettles] @ post @ [Resume])
               (waitForDone activityArgs)) = Returned r \<and>
      wd_pc (waitForDone_run startActivity
               (pre @ [ActivitySettles] @ mid @ [DoneSignal v] @ post @ [Resume])
               (waitForDone activityArgs)) = Returned r)"
proof -
  have init: "wd_starts (waitForDone activityArgs) = 1"
    "DoneSignalDef \<in> wd_handlers (waitForDone activityArgs)"
    "wd_pc (waitForDone activityArgs) = AwaitActivity"
    by (simp_all add: waitForDone_def setHandler_def)
  have only_after: "ActivitySettles \<in> set evs \<and> (\<exists>v. DoneSignal v \<in> set evs)"
    if "wd_pc (waitForDone_run startActivity evs (waitForDone activityArgs)) = Returned x" for x
    using that waitForDone_left_await [of startActivity evs activityArgs]
      waitForDone_returned_done [of startActivity evs activityArgs x]
    by (simp add: waitForDone_isDone)
  have done_first: "wd_pc (waitForDone_run startActivity
               (pre @ [DoneSignal v] @ mid @ [ActivitySettles] @ post @ [Resume])
               (waitForDone activityArgs)) = Returned r" if "startActivity activityArgs = Inr r"
    using waitForDone_returns
            [of startActivity activityArgs r "pre @ [DoneSignal v] @ mid @ [ActivitySettles] @ post" v]
      that by simp
  have settle_first: "wd_pc (waitForDone_run startActivity
               (pre @ [ActivitySettles] @ mid @ [DoneSignal v] @ post @ [Resume])
               (waitForDone activityArgs)) = Returned r" if "startActivity activityArgs = Inr r"
    using waitForDone_returns
            [of startActivity activityArgs r "pre @ [ActivitySettles] @ mid @ [DoneSignal v] @ post" v]
      that by simp
  show ?thesis
    using init only_after done_first settle_first
    by (simp add: waitForDone_starts waitForDone_isDone)
qed

theorem waitForDone_waits_for_both_witness:
  "(\<lambda>n::nat. Inr (n + 1) :: string + nat) 1 = Inr 2 \<and>
   wd_pc (waitForDone_run (\<lambda>n::nat. Inr (n + 1) :: string + nat)
            [DoneSignal ''f'', Resume, ActivitySettles, Resume :: (string, unit, unit) event]
            (waitForDone 1)) = Returned 2 \<and>
   wd_pc (waitForDone_run (\<lambda>n::nat. Inr (n + 1) :: string + nat)
            [ActivitySettles, Resume, DoneSignal ''f'', Resume :: (string, unit, unit) event]
            (waitForDone 1)) = Returned 2 \<and>
   wd_pc (waitForDone_run (\<lambda>n::nat. Inr (n + 1) :: string + nat)
            [ActivitySettles, Resume :: (string, unit, unit) event]
            (waitForDone 1)) = AwaitCondition 2 \<and>
   wd_pc (waitForDone_run (\<lambda>n::nat. Inr (n + 1) :: string + nat)
            [DoneSignal ''f'', Resume :: (string, unit, unit) event]
            (waitForDone 1)) = AwaitActivity"
proof -
  have "wd_pc (waitForDone_run (\<lambda>n::nat. Inr (n + 1) :: string + nat)
            [ActivitySettles, Resume :: (string, unit, unit) event]
            (waitForDone 1)) = AwaitCondition 2"
    by (simp add: waitForDone_run_def waitForDone_def waitForDone_resume_def settle_def)
  moreover have "wd_pc (waitForDone_run (\<lambda>n::nat. Inr (n + 1) :: string + nat)
            [DoneSignal ''f'', Resume :: (string, unit, unit) event]
            (waitForDone 1)) = AwaitActivity"
    by (simp add: waitForDone_run_def waitForDone_def waitForDone_resume_def settle_def
                  setHandler_def waitForDone_doneHandler_def)
  ultimately show ?thesis
    using waitForDone_waits_for_both
          [where startActivity = "\<lambda>n::nat. Inr (n + 1) :: string + nat"
             and evs = "[] :: (string, unit, unit) event list"
             and pre = "[]" and mid = "[Resume]" and post = "[]"
             and activityArgs = 1 and r = 2 and v = "''f''"]
    by simp
qed

section \<open>Properties of \<^verbatim>\<open>progressRequest\<close>\<close>


lemma first_complete_snoc:
  "first_complete (evs @ [ev]) =
     (case first_complete evs of Some f \<Rightarrow> Some f | None \<Rightarrow> first_complete [ev])"
  by (induction evs rule: first_complete.induct) simp_all

lemma first_complete_None: "first_complete evs = None \<longleftrightarrow> (\<forall>f. CompleteSignal f \<notin> set evs)"
  by (induction evs rule: first_complete.induct) auto

lemma first_complete_append:
  "first_complete pre = None \<Longrightarrow> first_complete (pre @ evs) = first_complete evs"
  by (induction pre rule: first_complete.induct) simp_all

lemma accepted_updates_snoc:
  "accepted_updates (evs @ [ev]) =
     (if first_complete evs = None then accepted_updates evs @ updates [ev]
      else accepted_updates evs)"
  by (induction evs rule: accepted_updates.induct) (cases ev; simp)+

lemma accepted_updates_append:
  "first_complete pre = None \<Longrightarrow>
   accepted_updates (pre @ CompleteSignal f # post) = updates pre"
  by (induction pre rule: accepted_updates.induct) simp_all

lemma progressRequest_run_snoc:
  "progressRequest_run f os op (evs @ [ev]) s =
     progressRequest_step f os op ev (progressRequest_run f os op evs s)"
  by (simp add: progressRequest_run_def)

lemma progressRequest_resume_fields:
  "pr_handlers (progressRequest_resume os s) = pr_handlers s"
  "pr_starts (progressRequest_resume os s) = pr_starts s"
  "pr_isDone (progressRequest_resume os s) = pr_isDone s"
  "pr_finalData (progressRequest_resume os s) = pr_finalData s"
  "pr_promise (progressRequest_resume os s) = pr_promise s"
  by (simp_all add: progressRequest_resume_def Let_def split: pc.splits promise.splits)

lemma progressRequest_handlers:
  "pr_handlers (progressRequest_run f os op evs (progressRequest a w)) =
     {UpdateSignalDef, CompleteSignalDef}"
proof (induction evs rule: rev_induct)
  case Nil
  show ?case by (auto simp: progressRequest_run_def progressRequest_def setHandler_def)
next
  case (snoc ev evs)
  then show ?case
    by (cases ev)
       (simp_all add: progressRequest_run_snoc progressRequest_resume_fields
                      progressRequest_updateHandler_def progressRequest_completeHandler_def)
qed

lemma progressRequest_starts:
  "pr_starts (progressRequest_run f os op evs (progressRequest a w)) = 1"
proof (induction evs rule: rev_induct)
  case Nil
  show ?case by (simp add: progressRequest_run_def progressRequest_def)
next
  case (snoc ev evs)
  then show ?case
    by (cases ev)
       (simp_all add: progressRequest_run_snoc progressRequest_resume_fields
                      progressRequest_updateHandler_def progressRequest_completeHandler_def)
qed

lemma progressRequest_flag_and_slot:
  "(pr_isDone (progressRequest_run f os op evs (progressRequest a w)) \<longleftrightarrow>
      first_complete evs \<noteq> None) \<and>
   pr_finalData (progressRequest_run f os op evs (progressRequest a w)) = first_payload evs"
proof (induction evs rule: rev_induct)
  case Nil
  show ?case by (simp add: progressRequest_run_def progressRequest_def first_payload_def)
next
  case (snoc ev evs)
  then show ?case
    by (cases ev)
       (auto simp: progressRequest_run_snoc progressRequest_resume_fields
                   progressRequest_updateHandler_def progressRequest_completeHandler_def
                   progressRequest_handlers first_complete_snoc first_payload_def
             split: option.splits)
qed

lemma progressRequest_promise:
  "pr_promise (progressRequest_run f os op evs (progressRequest a w)) =
     (if ActivitySettles \<in> set evs then settle f (InFlight a) else InFlight a)"
proof (induction evs rule: rev_induct)
  case Nil
  show ?case by (simp add: progressRequest_run_def progressRequest_def)
next
  case (snoc ev evs)
  then show ?case
    by (cases ev)
       (auto simp: progressRequest_run_snoc progressRequest_resume_fields
                   progressRequest_updateHandler_def progressRequest_completeHandler_def
                   settle_def split: sum.splits)
qed

lemma progressRequest_left_await:
  "pr_pc (progressRequest_run f os op evs (progressRequest a w)) \<noteq> AwaitActivity \<Longrightarrow>
   ActivitySettles \<in> set evs"
proof (induction evs rule: rev_induct)
  case Nil
  then show ?case by (simp add: progressRequest_run_def progressRequest_def)
next
  case (snoc ev evs)
  show ?case
  proof (cases ev)
    case Resume
    with snoc show ?thesis
      using progressRequest_promise [of f os op evs a w]
      by (auto simp: progressRequest_run_snoc progressRequest_resume_def
               split: pc.splits if_splits)
  qed (use snoc in \<open>auto simp: progressRequest_run_snoc progressRequest_updateHandler_def
                        progressRequest_completeHandler_def split: if_splits\<close>)
qed

lemma progressRequest_returned_slot:
  "pr_pc (progressRequest_run f os op evs (progressRequest a w)) = Returned x \<Longrightarrow>
   pr_isDone (progressRequest_run f os op evs (progressRequest a w)) \<and>
   x = pr_finalData (progressRequest_run f os op evs (progressRequest a w))"
proof (induction evs arbitrary: x rule: rev_induct)
  case Nil
  then show ?case by (simp add: progressRequest_run_def progressRequest_def)
next
  case (snoc ev evs)
  show ?case
  proof (cases ev)
    case Resume
    with snoc show ?thesis
      by (auto simp: progressRequest_run_snoc progressRequest_resume_def Let_def
               split: pc.splits promise.splits if_splits)
  qed (use snoc in \<open>auto simp: progressRequest_run_snoc progressRequest_updateHandler_def
                        progressRequest_completeHandler_def split: if_splits\<close>)
qed

lemma progressRequest_returned:
  assumes "pr_pc (progressRequest_run f os op evs (progressRequest a w)) = Returned x"
  shows "first_complete evs = Some x"
  using progressRequest_returned_slot [OF assms] progressRequest_flag_and_slot [of f os op evs a w]
  by (auto simp: first_payload_def split: option.splits)

lemma progressRequest_threw:
  "pr_pc (progressRequest_run f os op evs (progressRequest a w)) = Threw e \<Longrightarrow> f a = Inl e"
proof (induction evs rule: rev_induct)
  case Nil
  then show ?case by (simp add: progressRequest_run_def progressRequest_def)
next
  case (snoc ev evs)
  show ?case
  proof (cases ev)
    case Resume
    with snoc show ?thesis
      using progressRequest_promise [of f os op evs a w]
      by (auto simp: progressRequest_run_snoc progressRequest_resume_def Let_def settle_def
               split: pc.splits promise.splits if_splits sum.splits)
  qed (use snoc in \<open>auto simp: progressRequest_run_snoc progressRequest_updateHandler_def
                        progressRequest_completeHandler_def split: if_splits\<close>)
qed

lemma progressRequest_returns:
  assumes "f a = Inr r" "ActivitySettles \<in> set evs" "first_complete evs = Some v"
  shows "pr_pc (progressRequest_run f os op (evs @ [Resume]) (progressRequest a w)) =
           Returned v"
proof -
  let ?s = "progressRequest_run f os op evs (progressRequest a w)"
  have d: "pr_isDone ?s" "pr_finalData ?s = v"
    using assms(3) progressRequest_flag_and_slot [of f os op evs a w]
    by (simp_all add: first_payload_def)
  have p: "pr_promise ?s = Fulfilled r"
    using assms(1,2) by (simp add: progressRequest_promise settle_def)
  have "pr_pc ?s = AwaitActivity \<or> pr_pc ?s = AwaitCondition () \<or> pr_pc ?s = Returned v"
    using progressRequest_returned [of f os op evs a w] progressRequest_threw [of f os op evs a w]
      assms(1,3)
    by (cases "pr_pc ?s") auto
  then show ?thesis
    using d p by (auto simp: progressRequest_run_snoc progressRequest_resume_def Let_def)
qed

lemma progressRequest_step_pc_world:
  "pr_pc (progressRequest_step f os op (UpdateSignal p) s) = pr_pc s"
  "pr_pc (progressRequest_step f os op (CompleteSignal v) s) = pr_pc s"
  "pr_world (progressRequest_step f os op (CompleteSignal v) s) = pr_world s"
  "pr_world (progressRequest_step f os op (UpdateSignal p) s) =
     (if UpdateSignalDef \<in> pr_handlers s \<and> \<not> pr_isDone s
      then callback op p (pr_world s) else pr_world s)"
  by (simp_all add: progressRequest_updateHandler_def progressRequest_completeHandler_def)

lemma progressRequest_resume_await:
  "pr_pc (progressRequest_resume os s) = AwaitActivity \<Longrightarrow> progressRequest_resume os s = s"
  by (auto simp: progressRequest_resume_def Let_def split: pc.splits promise.splits if_splits)

lemma progressRequest_resume_cases:
  "pr_pc s = AwaitActivity \<Longrightarrow> pr_promise s = Fulfilled r \<Longrightarrow>
     pr_pc (progressRequest_resume os s) \<noteq> AwaitActivity \<and>
     pr_world (progressRequest_resume os s) = callback os r (pr_world s)"
  "pr_pc s = AwaitActivity \<Longrightarrow> pr_promise s = InFlight a \<Longrightarrow> progressRequest_resume os s = s"
  "pr_pc s \<noteq> AwaitActivity \<Longrightarrow>
     pr_pc (progressRequest_resume os s) \<noteq> AwaitActivity \<and>
     pr_world (progressRequest_resume os s) = pr_world s"
  by (auto simp: progressRequest_resume_def Let_def split: pc.splits)

lemma progressRequest_world_before:
  "pr_pc (progressRequest_run f os op evs (progressRequest a w)) = AwaitActivity \<Longrightarrow>
   pr_world (progressRequest_run f os op evs (progressRequest a w)) =
     foldl (\<lambda>w p. callback op p w) w (accepted_updates evs)"
proof (induction evs rule: rev_induct)
  case Nil
  show ?case by (simp add: progressRequest_run_def progressRequest_def)
next
  case (snoc ev evs)
  let ?s = "progressRequest_run f os op evs (progressRequest a w)"
  note flag = progressRequest_flag_and_slot [of f os op evs a w]
  note hs = progressRequest_handlers [of f os op evs a w]
  have step: "pr_pc (progressRequest_step f os op ev ?s) = AwaitActivity"
    using snoc.prems by (simp add: progressRequest_run_snoc)
  show ?case
  proof (cases ev)
    case (UpdateSignal p)
    then have "pr_pc ?s = AwaitActivity"
      using step by (simp add: progressRequest_step_pc_world del: progressRequest_step.simps)
    then have ih: "pr_world ?s = foldl (\<lambda>w p. callback op p w) w (accepted_updates evs)"
      by (rule snoc.IH)
    show ?thesis
    proof (cases "first_complete evs")
      case None
      then show ?thesis
        using UpdateSignal ih flag hs
        by (simp add: progressRequest_run_snoc progressRequest_step_pc_world
                      accepted_updates_snoc del: progressRequest_step.simps)
    next
      case (Some v)
      then show ?thesis
        using UpdateSignal ih flag hs
        by (simp add: progressRequest_run_snoc progressRequest_step_pc_world
                      accepted_updates_snoc del: progressRequest_step.simps)
    qed
  next
    case (CompleteSignal v)
    then have "pr_pc ?s = AwaitActivity"
      using step by (simp add: progressRequest_step_pc_world del: progressRequest_step.simps)
    then have "pr_world ?s = foldl (\<lambda>w p. callback op p w) w (accepted_updates evs)"
      by (rule snoc.IH)
    then show ?thesis
      using CompleteSignal
      by (simp add: progressRequest_run_snoc progressRequest_step_pc_world
                    accepted_updates_snoc del: progressRequest_step.simps)
  next
    case Resume
    then have same: "progressRequest_step f os op ev ?s = ?s"
      using step progressRequest_resume_await [of os ?s] by simp
    then have "pr_world ?s = foldl (\<lambda>w p. callback op p w) w (accepted_updates evs)"
      using step snoc.IH by simp
    then show ?thesis
      using Resume same by (simp add: progressRequest_run_snoc accepted_updates_snoc)
  qed (use snoc step in \<open>simp_all add: progressRequest_run_snoc accepted_updates_snoc\<close>)
qed

lemma started_once_start:
  "\<exists>ps1 ps2. ps = ps1 @ ps2 \<and>
     callback os r (foldl (\<lambda>w p. callback op p w) w ps) =
       foldl (\<lambda>w p. callback op p w) (callback os r (foldl (\<lambda>w p. callback op p w) w ps1)) ps2"
  by (rule exI [of _ ps], rule exI [of _ "[]"]) simp

lemma started_once_snoc:
  assumes "\<exists>ps1 ps2. ps = ps1 @ ps2 \<and>
     x = foldl (\<lambda>w p. callback op p w) (callback os r (foldl (\<lambda>w p. callback op p w) w ps1)) ps2"
  shows "\<exists>ps1 ps2. ps @ [p] = ps1 @ ps2 \<and>
     callback op p x =
       foldl (\<lambda>w p. callback op p w) (callback os r (foldl (\<lambda>w p. callback op p w) w ps1)) ps2"
proof -
  from assms obtain ps1 ps2 where
    "ps = ps1 @ ps2"
    "x = foldl (\<lambda>w p. callback op p w) (callback os r (foldl (\<lambda>w p. callback op p w) w ps1)) ps2"
    by blast
  then show ?thesis
    by (intro exI [of _ ps1] exI [of _ "ps2 @ [p]"]) simp
qed


lemma progressRequest_world_after:
  assumes res: "f a = Inr r"
  shows "pr_pc (progressRequest_run f os op evs (progressRequest a w)) \<noteq> AwaitActivity \<Longrightarrow>
   \<exists>ps1 ps2. accepted_updates evs = ps1 @ ps2 \<and>
     pr_world (progressRequest_run f os op evs (progressRequest a w)) =
       foldl (\<lambda>w p. callback op p w)
         (callback os r (foldl (\<lambda>w p. callback op p w) w ps1)) ps2"
proof (induction evs rule: rev_induct)
  case Nil
  then show ?case by (simp add: progressRequest_run_def progressRequest_def)
next
  case (snoc ev evs)
  let ?s = "progressRequest_run f os op evs (progressRequest a w)"
  let ?goal = "\<lambda>ps x. \<exists>ps1 ps2. ps = ps1 @ ps2 \<and>
     x = foldl (\<lambda>w p. callback op p w)
           (callback os r (foldl (\<lambda>w p. callback op p w) w ps1)) ps2"
  note flag = progressRequest_flag_and_slot [of f os op evs a w]
  note hs = progressRequest_handlers [of f os op evs a w]
  have step: "pr_pc (progressRequest_step f os op ev ?s) \<noteq> AwaitActivity"
    using snoc.prems by (simp add: progressRequest_run_snoc)
  have unchanged: "?goal (accepted_updates (evs @ [ev]))
                     (pr_world (progressRequest_run f os op (evs @ [ev]) (progressRequest a w)))"
    if "pr_pc ?s \<noteq> AwaitActivity"
       "accepted_updates (evs @ [ev]) = accepted_updates evs"
       "pr_world (progressRequest_step f os op ev ?s) = pr_world ?s"
    using snoc.IH [OF that(1)] that(2,3) by (simp add: progressRequest_run_snoc)
  show ?case
  proof (cases ev)
    case (UpdateSignal p)
    then have pc: "pr_pc ?s \<noteq> AwaitActivity"
      using step by (simp add: progressRequest_step_pc_world del: progressRequest_step.simps)
    show ?thesis
    proof (cases "first_complete evs")
      case None
      then have "accepted_updates (evs @ [ev]) = accepted_updates evs @ [p]"
        "pr_world (progressRequest_run f os op (evs @ [ev]) (progressRequest a w)) =
           callback op p (pr_world ?s)"
        using UpdateSignal flag hs
        by (simp_all add: progressRequest_run_snoc progressRequest_step_pc_world
                          accepted_updates_snoc del: progressRequest_step.simps)
      then show ?thesis
        using started_once_snoc [OF snoc.IH [OF pc], of p] by simp
    next
      case (Some v)
      then show ?thesis
        using UpdateSignal flag
        by (intro unchanged pc)
           (simp_all add: progressRequest_step_pc_world accepted_updates_snoc
                     del: progressRequest_step.simps)
    qed
  next
    case (CompleteSignal v)
    then have pc: "pr_pc ?s \<noteq> AwaitActivity"
      using step by (simp add: progressRequest_step_pc_world del: progressRequest_step.simps)
    show ?thesis
      using CompleteSignal
      by (intro unchanged pc)
         (simp_all add: progressRequest_step_pc_world accepted_updates_snoc
                   del: progressRequest_step.simps)
  next
    case Resume
    have acc: "accepted_updates (evs @ [ev]) = accepted_updates evs"
      using Resume by (simp add: accepted_updates_snoc)
    show ?thesis
    proof (cases "pr_pc ?s = AwaitActivity")
      case True
      have "pr_promise ?s \<noteq> InFlight a"
        using step Resume True progressRequest_resume_cases(2) [of ?s a os] by auto
      then have "pr_promise ?s = Fulfilled r"
        using res by (simp add: progressRequest_promise settle_def split: if_splits)
      then have "pr_world (progressRequest_run f os op (evs @ [ev]) (progressRequest a w)) =
          callback os r (pr_world ?s)"
        using Resume True progressRequest_resume_cases(1) [of ?s r os]
        by (simp add: progressRequest_run_snoc)
      moreover have "pr_world ?s = foldl (\<lambda>w p. callback op p w) w (accepted_updates evs)"
        using True by (rule progressRequest_world_before)
      ultimately show ?thesis
        using acc started_once_start [of "accepted_updates evs" os r op w] by simp
    next
      case False
      then show ?thesis
        using Resume acc progressRequest_resume_cases(3) [of ?s os]
        by (intro unchanged) simp_all
    qed
  qed (use snoc step in \<open>simp_all add: progressRequest_run_snoc accepted_updates_snoc\<close>)
qed

text \<open>
  C2. Let the start activity resolve to \<open>r\<close>. Take any schedule in which update signals
  with payloads \<open>p1 ... pk\<close> are delivered before the first complete signal, which carries
  \<open>f\<close>, and in which the activity settles at some point, before the complete signal or after
  it. Then the next run of the body returns \<open>f\<close>; the world is the initial one with
  \<^verbatim>\<open>onProgress\<close> applied to \<open>p1 ... pk\<close> in this order, once each, and \<^verbatim>\<open>onStarted\<close> applied
  once to \<open>r\<close> at some point among them; and the complete signal has set the flag and
  stored \<open>f\<close> as soon as it was delivered, whether or not the activity had settled.
\<close>

theorem progressRequest_returns_final_payload:
  fixes startLongJobActivity :: "'args \<Rightarrow> 'e + 'ar"
    and pre post :: "('fin option, 'sub, 'prog) event list"
    and w :: 'w
  assumes "startLongJobActivity activityArgs = Inr r"
    and "first_complete pre = None"
    and "ActivitySettles \<in> set (pre @ post)"
  shows
  "pr_pc (progressRequest_run startLongJobActivity onStarted onProgress
            (pre @ CompleteSignal f # post @ [Resume]) (progressRequest activityArgs w)) =
     Returned f \<and>
   (\<exists>ps1 ps2. updates pre = ps1 @ ps2 \<and>
      pr_world (progressRequest_run startLongJobActivity onStarted onProgress
                  (pre @ CompleteSignal f # post @ [Resume]) (progressRequest activityArgs w)) =
        foldl (\<lambda>w p. callback onProgress p w)
          (callback onStarted r (foldl (\<lambda>w p. callback onProgress p w) w ps1)) ps2) \<and>
   pr_isDone (progressRequest_run startLongJobActivity onStarted onProgress
                (pre @ [CompleteSignal f]) (progressRequest activityArgs w)) \<and>
   pr_finalData (progressRequest_run startLongJobActivity onStarted onProgress
                   (pre @ [CompleteSignal f]) (progressRequest activityArgs w)) = f"
proof -
  let ?evs = "pre @ CompleteSignal f # post"
  have fc: "first_complete ?evs = Some f"
    using assms(2) by (simp add: first_complete_append)
  have st: "ActivitySettles \<in> set ?evs"
    using assms(3) by auto
  have ret: "pr_pc (progressRequest_run startLongJobActivity onStarted onProgress
            (?evs @ [Resume]) (progressRequest activityArgs w)) = Returned f"
    using assms(1) st fc by (rule progressRequest_returns)
  have acc: "accepted_updates (?evs @ [Resume]) = updates pre"
    using assms(2) accepted_updates_append [of pre f "post @ [Resume]"] by simp
  have "\<exists>ps1 ps2. accepted_updates (?evs @ [Resume]) = ps1 @ ps2 \<and>
      pr_world (progressRequest_run startLongJobActivity onStarted onProgress
                  (?evs @ [Resume]) (progressRequest activityArgs w)) =
        foldl (\<lambda>w p. callback onProgress p w)
          (callback onStarted r (foldl (\<lambda>w p. callback onProgress p w) w ps1)) ps2"
    using assms(1) by (rule progressRequest_world_after) (use ret in simp)
  then have world: "\<exists>ps1 ps2. updates pre = ps1 @ ps2 \<and>
      pr_world (progressRequest_run startLongJobActivity onStarted onProgress
                  (?evs @ [Resume]) (progressRequest activityArgs w)) =
        foldl (\<lambda>w p. callback onProgress p w)
          (callback onStarted r (foldl (\<lambda>w p. callback onProgress p w) w ps1)) ps2"
    by (simp only: acc)
  have "first_complete (pre @ [CompleteSignal f]) = Some f"
    using assms(2) by (simp add: first_complete_append)
  then have early:
    "pr_isDone (progressRequest_run startLongJobActivity onStarted onProgress
                (pre @ [CompleteSignal f]) (progressRequest activityArgs w))"
    "pr_finalData (progressRequest_run startLongJobActivity onStarted onProgress
                   (pre @ [CompleteSignal f]) (progressRequest activityArgs w)) = f"
    using progressRequest_flag_and_slot
            [of startLongJobActivity onStarted onProgress "pre @ [CompleteSignal f]" activityArgs w]
    by (simp_all add: first_payload_def)
  show ?thesis
    using ret world early by simp
qed

theorem progressRequest_returns_final_payload_witness:
  "(\<lambda>u::unit. Inr ''job-42'' :: unit + string) () = Inr ''job-42'' \<and>
   first_complete [ActivitySettles, Resume, UpdateSignal ''found 3 listings'',
                   UpdateSignal ''found 7 listings'' :: (string option, unit, string) event] = None \<and>
   ActivitySettles \<in> set ([ActivitySettles, Resume, UpdateSignal ''found 3 listings'',
                   UpdateSignal ''found 7 listings'' :: (string option, unit, string) event] @ []) \<and>
   pr_pc (progressRequest_run (\<lambda>u::unit. Inr ''job-42'' :: unit + string)
            (Some (\<lambda>r w. w @ [''started '' @ r])) (Some (\<lambda>p w. w @ [p]))
            ([ActivitySettles, Resume, UpdateSignal ''found 3 listings'',
              UpdateSignal ''found 7 listings''] @
             CompleteSignal (Some ''done, 7 listings'') # [] @
             [Resume :: (string option, unit, string) event])
            (progressRequest () [])) = Returned (Some ''done, 7 listings'') \<and>
   pr_world (progressRequest_run (\<lambda>u::unit. Inr ''job-42'' :: unit + string)
            (Some (\<lambda>r w. w @ [''started '' @ r])) (Some (\<lambda>p w. w @ [p]))
            ([ActivitySettles, Resume, UpdateSignal ''found 3 listings'',
              UpdateSignal ''found 7 listings''] @
             CompleteSignal (Some ''done, 7 listings'') # [] @
             [Resume :: (string option, unit, string) event])
            (progressRequest () [])) =
     [''started job-42'', ''found 3 listings'', ''found 7 listings'']"
proof -
  have h1: "(\<lambda>u::unit. Inr ''job-42'' :: unit + string) () = Inr ''job-42''"
    by simp
  have h2: "first_complete [ActivitySettles, Resume, UpdateSignal ''found 3 listings'',
                   UpdateSignal ''found 7 listings'' :: (string option, unit, string) event] = None"
    by simp
  have h3: "ActivitySettles \<in> set ([ActivitySettles, Resume, UpdateSignal ''found 3 listings'',
                   UpdateSignal ''found 7 listings'' :: (string option, unit, string) event] @ [])"
    by simp
  have w: "pr_world (progressRequest_run (\<lambda>u::unit. Inr ''job-42'' :: unit + string)
            (Some (\<lambda>r w. w @ [''started '' @ r])) (Some (\<lambda>p w. w @ [p]))
            ([ActivitySettles, Resume, UpdateSignal ''found 3 listings'',
              UpdateSignal ''found 7 listings''] @
             CompleteSignal (Some ''done, 7 listings'') # [] @
             [Resume :: (string option, unit, string) event])
            (progressRequest () [])) =
     [''started job-42'', ''found 3 listings'', ''found 7 listings'']"
    by (simp add: progressRequest_run_def progressRequest_def setHandler_def settle_def
                  progressRequest_resume_def progressRequest_updateHandler_def
                  progressRequest_completeHandler_def callback_def)
  show ?thesis
    using progressRequest_returns_final_payload
            [where onStarted = "Some (\<lambda>r w. w @ [''started '' @ r])"
               and onProgress = "Some (\<lambda>p w. w @ [p])"
               and f = "Some ''done, 7 listings''" and w = "[]"
               and startLongJobActivity = "\<lambda>u::unit. Inr ''job-42'' :: unit + string"
               and activityArgs = "()" and r = "''job-42''"
               and pre = "[ActivitySettles, Resume, UpdateSignal ''found 3 listings'',
                           UpdateSignal ''found 7 listings'' :: (string option, unit, string) event]"
               and post = "[]"]
          h1 h2 h3 w
    by simp
qed




text \<open>
  C7. In every state that an invocation of \<^verbatim>\<open>progressRequest\<close> reaches, whether the
  activity has settled or not: an update signal delivered when the flag is set leaves the
  state as it is, so \<^verbatim>\<open>onProgress\<close> is not called; an update signal delivered when the flag
  is not set calls \<^verbatim>\<open>onProgress\<close> with its payload; and the flag is set exactly when a
  complete signal has been delivered.
\<close>

theorem progressRequest_drops_progress_after_completion:
  fixes startLongJobActivity :: "'args \<Rightarrow> 'e + 'ar"
    and evs :: "('fin option, 'sub, 'prog) event list"
    and w :: 'w
  shows
  "(pr_isDone (progressRequest_run startLongJobActivity onStarted onProgress evs
                 (progressRequest activityArgs w)) \<longrightarrow>
      progressRequest_run startLongJobActivity onStarted onProgress (evs @ [UpdateSignal p])
        (progressRequest activityArgs w) =
      progressRequest_run startLongJobActivity onStarted onProgress evs
        (progressRequest activityArgs w)) \<and>
   (\<not> pr_isDone (progressRequest_run startLongJobActivity onStarted onProgress evs
                   (progressRequest activityArgs w)) \<longrightarrow>
      pr_world (progressRequest_run startLongJobActivity onStarted onProgress (evs @ [UpdateSignal p])
                  (progressRequest activityArgs w)) =
      callback onProgress p
        (pr_world (progressRequest_run startLongJobActivity onStarted onProgress evs
                     (progressRequest activityArgs w)))) \<and>
   (pr_isDone (progressRequest_run startLongJobActivity onStarted onProgress evs
                (progressRequest activityArgs w)) \<longleftrightarrow> (\<exists>f. CompleteSignal f \<in> set evs))"
proof -
  note hs = progressRequest_handlers
              [of startLongJobActivity onStarted onProgress evs activityArgs w]
  note flag = progressRequest_flag_and_slot
                [of startLongJobActivity onStarted onProgress evs activityArgs w]
  have "(first_complete evs \<noteq> None) = (\<exists>f. CompleteSignal f \<in> set evs)"
    using first_complete_None [of evs] by auto
  then show ?thesis
    using hs flag
    by (simp add: progressRequest_run_snoc progressRequest_updateHandler_def)
qed

theorem progressRequest_drops_progress_after_completion_witness:
  "pr_isDone (progressRequest_run (\<lambda>u::unit. Inr ''job-42'' :: unit + string)
               None (Some (\<lambda>p w. w @ [p]))
               [UpdateSignal ''one'', CompleteSignal (Some ''f'') :: (string option, unit, string) event]
               (progressRequest () [])) \<and>
   pr_world (progressRequest_run (\<lambda>u::unit. Inr ''job-42'' :: unit + string)
               None (Some (\<lambda>p w. w @ [p]))
               ([UpdateSignal ''one'', CompleteSignal (Some ''f'') :: (string option, unit, string) event] @
                [UpdateSignal ''two''])
               (progressRequest () [])) = [''one''] \<and>
   \<not> pr_isDone (progressRequest_run (\<lambda>u::unit. Inr ''job-42'' :: unit + string)
               None (Some (\<lambda>p w. w @ [p]))
               [UpdateSignal ''one'' :: (string option, unit, string) event]
               (progressRequest () [])) \<and>
   pr_world (progressRequest_run (\<lambda>u::unit. Inr ''job-42'' :: unit + string)
               None (Some (\<lambda>p w. w @ [p]))
               ([UpdateSignal ''one'' :: (string option, unit, string) event] @ [UpdateSignal ''two''])
               (progressRequest () [])) = [''one'', ''two'']"
proof -
  have one: "pr_world (progressRequest_run (\<lambda>u::unit. Inr ''job-42'' :: unit + string)
               None (Some (\<lambda>p w. w @ [p]))
               [UpdateSignal ''one'' :: (string option, unit, string) event]
               (progressRequest () [])) = [''one'']"
    by (simp add: progressRequest_run_def progressRequest_def setHandler_def
                  progressRequest_updateHandler_def callback_def)
  have two: "pr_world (progressRequest_run (\<lambda>u::unit. Inr ''job-42'' :: unit + string)
               None (Some (\<lambda>p w. w @ [p]))
               [UpdateSignal ''one'', CompleteSignal (Some ''f'') :: (string option, unit, string) event]
               (progressRequest () [])) = [''one'']"
    by (simp add: progressRequest_run_def progressRequest_def setHandler_def
                  progressRequest_updateHandler_def progressRequest_completeHandler_def
                  callback_def)
  show ?thesis
    using progressRequest_drops_progress_after_completion
          [where startLongJobActivity = "\<lambda>u::unit. Inr ''job-42'' :: unit + string"
             and onStarted = None and onProgress = "Some (\<lambda>p w. w @ [p])"
             and evs = "[UpdateSignal ''one'', CompleteSignal (Some ''f'') :: (string option, unit, string) event]"
             and activityArgs = "()" and w = "[]" and p = "''two''"]
          progressRequest_drops_progress_after_completion
          [where startLongJobActivity = "\<lambda>u::unit. Inr ''job-42'' :: unit + string"
             and onStarted = None and onProgress = "Some (\<lambda>p w. w @ [p])"
             and evs = "[UpdateSignal ''one'' :: (string option, unit, string) event]"
             and activityArgs = "()" and w = "[]" and p = "''two''"]
          one two
    by (simp add: callback_def)
qed

section \<open>Completion signals after the first\<close>


lemma waitForDone_run_append:
  "waitForDone_run f (evs @ evs') s = waitForDone_run f evs' (waitForDone_run f evs s)"
  by (simp add: waitForDone_run_def)

lemma waitForDone_run_Cons:
  "waitForDone_run f (ev # evs) s = waitForDone_run f evs (waitForDone_step f ev s)"
  by (simp add: waitForDone_run_def)

lemma waitForDone_step_done_again:
  "wd_isDone s \<Longrightarrow> waitForDone_step f (DoneSignal v) s = s"
  by (simp add: waitForDone_doneHandler_def)

lemma waitForDone_step_keeps_done:
  "wd_isDone s \<Longrightarrow> wd_isDone (waitForDone_step f ev s)"
  by (cases ev) (simp_all add: waitForDone_doneHandler_def waitForDone_resume_fields)

lemma waitForDone_run_drop_done:
  "wd_isDone s \<Longrightarrow>
   wd_isDone (waitForDone_run f evs s) \<and>
   waitForDone_run f evs s = waitForDone_run f (filter (\<lambda>ev. \<not> is_DoneSignal ev) evs) s"
proof (induction evs arbitrary: s)
  case Nil
  then show ?case by (simp add: waitForDone_run_def)
next
  case (Cons ev evs)
  have d: "wd_isDone (waitForDone_step f ev s)"
    using Cons.prems by (rule waitForDone_step_keeps_done)
  show ?case
  proof (cases "is_DoneSignal ev")
    case True
    then obtain v where ev: "ev = DoneSignal v" by (cases ev) simp_all
    have run: "waitForDone_run f (ev # evs) s = waitForDone_run f evs s"
      unfolding ev waitForDone_run_Cons waitForDone_step_done_again [OF Cons.prems] ..
    have flt: "filter (\<lambda>ev. \<not> is_DoneSignal ev) (ev # evs) =
               filter (\<lambda>ev. \<not> is_DoneSignal ev) evs"
      using True by simp
    show ?thesis
      unfolding run flt by (rule Cons.IH [OF Cons.prems])
  next
    case False
    have flt: "filter (\<lambda>ev. \<not> is_DoneSignal ev) (ev # evs) =
               ev # filter (\<lambda>ev. \<not> is_DoneSignal ev) evs"
      using False by simp
    show ?thesis
      unfolding flt waitForDone_run_Cons by (rule Cons.IH [OF d])
  qed
qed

lemma waitForDone_run_skip:
  "wd_isDone (waitForDone_run f xs s) \<Longrightarrow>
   waitForDone_run f (xs @ DoneSignal v # ys) s = waitForDone_run f (xs @ ys) s"
  by (simp add: waitForDone_run_append waitForDone_run_Cons waitForDone_step_done_again
           del: waitForDone_step.simps)

lemma progressRequest_run_append:
  "progressRequest_run f os op (evs @ evs') s =
     progressRequest_run f os op evs' (progressRequest_run f os op evs s)"
  by (simp add: progressRequest_run_def)

lemma progressRequest_run_Cons:
  "progressRequest_run f os op (ev # evs) s =
     progressRequest_run f os op evs (progressRequest_step f os op ev s)"
  by (simp add: progressRequest_run_def)

lemma progressRequest_step_complete_again:
  "pr_isDone s \<Longrightarrow> progressRequest_step f os op (CompleteSignal v) s = s"
  by (simp add: progressRequest_completeHandler_def)

lemma progressRequest_step_keeps_done:
  "pr_isDone s \<Longrightarrow>
   pr_isDone (progressRequest_step f os op ev s) \<and>
   pr_finalData (progressRequest_step f os op ev s) = pr_finalData s"
  by (cases ev)
     (simp_all add: progressRequest_completeHandler_def progressRequest_updateHandler_def
                    progressRequest_resume_fields)

lemma progressRequest_run_drop_complete:
  "pr_isDone s \<Longrightarrow>
   pr_isDone (progressRequest_run f os op evs s) \<and>
   pr_finalData (progressRequest_run f os op evs s) = pr_finalData s \<and>
   progressRequest_run f os op evs s =
     progressRequest_run f os op (filter (\<lambda>ev. \<not> is_CompleteSignal ev) evs) s"
proof (induction evs arbitrary: s)
  case Nil
  then show ?case by (simp add: progressRequest_run_def)
next
  case (Cons ev evs)
  have d: "pr_isDone (progressRequest_step f os op ev s)"
    "pr_finalData (progressRequest_step f os op ev s) = pr_finalData s"
    using progressRequest_step_keeps_done [OF Cons.prems, of f os op ev] by simp_all
  show ?case
  proof (cases "is_CompleteSignal ev")
    case True
    then obtain v where ev: "ev = CompleteSignal v" by (cases ev) simp_all
    have run: "progressRequest_run f os op (ev # evs) s = progressRequest_run f os op evs s"
      unfolding ev progressRequest_run_Cons progressRequest_step_complete_again [OF Cons.prems] ..
    have flt: "filter (\<lambda>ev. \<not> is_CompleteSignal ev) (ev # evs) =
               filter (\<lambda>ev. \<not> is_CompleteSignal ev) evs"
      using True by simp
    show ?thesis
      unfolding run flt by (rule Cons.IH [OF Cons.prems])
  next
    case False
    have flt: "filter (\<lambda>ev. \<not> is_CompleteSignal ev) (ev # evs) =
               ev # filter (\<lambda>ev. \<not> is_CompleteSignal ev) evs"
      using False by simp
    note ih = Cons.IH [OF d(1)]
    have "pr_finalData (progressRequest_run f os op evs (progressRequest_step f os op ev s)) =
          pr_finalData s"
      using ih [THEN conjunct2, THEN conjunct1] d(2) by (rule trans)
    then show ?thesis
      unfolding flt progressRequest_run_Cons
      using ih [THEN conjunct1] ih [THEN conjunct2, THEN conjunct2] by (intro conjI)
  qed
qed

lemma progressRequest_run_skip:
  "pr_isDone (progressRequest_run f os op xs s) \<Longrightarrow>
   progressRequest_run f os op (xs @ CompleteSignal v # ys) s =
     progressRequest_run f os op (xs @ ys) s"
  by (simp add: progressRequest_run_append progressRequest_run_Cons
                progressRequest_step_complete_again
           del: progressRequest_step.simps)

text \<open>
  C5. In \<^verbatim>\<open>waitForDone\<close> and in \<^verbatim>\<open>progressRequest\<close> the completion flag, once set, stays set,
  and from then on the completion signal is without effect: the run of any schedule is the
  run of that schedule with its completion signals removed, so a further completion signal
  changes neither the stored payload nor the value returned, and calls no callback. In
  particular, a second completion signal in a schedule of an invocation can be left out.
\<close>

theorem completion_is_idempotent:
  fixes startActivity :: "'args \<Rightarrow> 'e + 't"
    and evs pre mid post :: "('fin, 'sub, 'prog) event list"
    and evs' pre' mid' post' :: "('pfin option, 'psub, 'pprog) event list"
    and s :: "('args, 't, 'e) wd_state"
    and t :: "('args, 't, 'e, 'pfin, 'w) pr_state"
  shows
  "(wd_isDone s \<longrightarrow>
      wd_isDone (waitForDone_run startActivity evs s) \<and>
      waitForDone_run startActivity evs s =
        waitForDone_run startActivity (filter (\<lambda>ev. \<not> is_DoneSignal ev) evs) s) \<and>
   (pr_isDone t \<longrightarrow>
      pr_isDone (progressRequest_run startActivity onStarted onProgress evs' t) \<and>
      pr_finalData (progressRequest_run startActivity onStarted onProgress evs' t) = pr_finalData t \<and>
      progressRequest_run startActivity onStarted onProgress evs' t =
        progressRequest_run startActivity onStarted onProgress
          (filter (\<lambda>ev. \<not> is_CompleteSignal ev) evs') t) \<and>
   waitForDone_run startActivity (pre @ DoneSignal v # mid @ DoneSignal v' # post)
       (waitForDone activityArgs) =
     waitForDone_run startActivity (pre @ DoneSignal v # mid @ post) (waitForDone activityArgs) \<and>
   progressRequest_run startActivity onStarted onProgress
       (pre' @ CompleteSignal u # mid' @ CompleteSignal u' # post') (progressRequest activityArgs w) =
     progressRequest_run startActivity onStarted onProgress
       (pre' @ CompleteSignal u # mid' @ post') (progressRequest activityArgs w)"
proof -
  have wd: "waitForDone_run startActivity (pre @ DoneSignal v # mid @ DoneSignal v' # post)
       (waitForDone activityArgs) =
     waitForDone_run startActivity (pre @ DoneSignal v # mid @ post) (waitForDone activityArgs)"
  proof -
    have "wd_isDone (waitForDone_run startActivity (pre @ DoneSignal v # mid)
                       (waitForDone activityArgs))"
      by (auto simp: waitForDone_isDone)
    then show ?thesis
      using waitForDone_run_skip
              [of startActivity "pre @ DoneSignal v # mid" "waitForDone activityArgs" v' post]
      by simp
  qed
  have pr: "progressRequest_run startActivity onStarted onProgress
       (pre' @ CompleteSignal u # mid' @ CompleteSignal u' # post') (progressRequest activityArgs w) =
     progressRequest_run startActivity onStarted onProgress
       (pre' @ CompleteSignal u # mid' @ post') (progressRequest activityArgs w)"
  proof -
    have "first_complete (pre' @ CompleteSignal u # mid') \<noteq> None"
      by (auto simp: first_complete_None)
    then have "pr_isDone (progressRequest_run startActivity onStarted onProgress
                            (pre' @ CompleteSignal u # mid') (progressRequest activityArgs w))"
      using progressRequest_flag_and_slot
              [of startActivity onStarted onProgress "pre' @ CompleteSignal u # mid'"
                  activityArgs w]
      by simp
    then show ?thesis
      using progressRequest_run_skip
              [of startActivity onStarted onProgress "pre' @ CompleteSignal u # mid'"
                  "progressRequest activityArgs w" u' post']
      by simp
  qed
  show ?thesis
    using wd pr waitForDone_run_drop_done [of s startActivity evs]
      progressRequest_run_drop_complete [of t startActivity onStarted onProgress evs']
    by blast
qed

theorem completion_is_idempotent_witness:
  "wd_isDone (waitForDone_run (\<lambda>u::unit. Inr ''job-42'' :: unit + string)
               [DoneSignal ''first'' :: (string, unit, string) event] (waitForDone ())) \<and>
   wd_pc (waitForDone_run (\<lambda>u::unit. Inr ''job-42'' :: unit + string)
            [DoneSignal ''second'', ActivitySettles, DoneSignal ''third'',
             Resume :: (string, unit, string) event]
            (waitForDone_run (\<lambda>u::unit. Inr ''job-42'' :: unit + string)
               [DoneSignal ''first'' :: (string, unit, string) event] (waitForDone ()))) =
     Returned ''job-42'' \<and>
   pr_isDone (progressRequest_run (\<lambda>u::unit. Inr ''job-42'' :: unit + string)
                None (Some (\<lambda>p w. w @ [p]))
                [CompleteSignal (Some ''first'') :: (string option, unit, string) event]
                (progressRequest () [])) \<and>
   pr_pc (progressRequest_run (\<lambda>u::unit. Inr ''job-42'' :: unit + string)
            None (Some (\<lambda>p w. w @ [p]))
            [CompleteSignal (Some ''second''), ActivitySettles, CompleteSignal None,
             Resume :: (string option, unit, string) event]
            (progressRequest_run (\<lambda>u::unit. Inr ''job-42'' :: unit + string)
                None (Some (\<lambda>p w. w @ [p]))
                [CompleteSignal (Some ''first'') :: (string option, unit, string) event]
                (progressRequest () []))) = Returned (Some ''first'')"
proof -
  let ?f = "\<lambda>u::unit. Inr ''job-42'' :: unit + string"
  let ?s = "waitForDone_run ?f [DoneSignal ''first'' :: (string, unit, string) event]
              (waitForDone ())"
  let ?t = "progressRequest_run ?f None (Some (\<lambda>p w. w @ [p]))
              [CompleteSignal (Some ''first'') :: (string option, unit, string) event]
              (progressRequest () ([] :: string list))"
  have s: "wd_isDone ?s"
    by (simp add: waitForDone_run_def waitForDone_def setHandler_def waitForDone_doneHandler_def)
  have t: "pr_isDone ?t"
    by (simp add: progressRequest_run_def progressRequest_def setHandler_def
                  progressRequest_completeHandler_def)
  have s': "wd_pc (waitForDone_run ?f [ActivitySettles, Resume :: (string, unit, string) event] ?s) =
              Returned ''job-42''"
    by (simp add: waitForDone_run_def waitForDone_def setHandler_def waitForDone_doneHandler_def
                  waitForDone_resume_def settle_def)
  have t': "pr_pc (progressRequest_run ?f None (Some (\<lambda>p w. w @ [p]))
                     [ActivitySettles, Resume :: (string option, unit, string) event] ?t) =
              Returned (Some ''first'')"
    by (simp add: progressRequest_run_def progressRequest_def setHandler_def
                  progressRequest_completeHandler_def progressRequest_resume_def settle_def
                  callback_def)
  show ?thesis
    using completion_is_idempotent
            [where startActivity = ?f and s = ?s and t = ?t
               and onStarted = None and onProgress = "Some (\<lambda>p w. w @ [p])"
               and evs = "[DoneSignal ''second'', ActivitySettles, DoneSignal ''third'',
                           Resume :: (string, unit, string) event]"
               and evs' = "[CompleteSignal (Some ''second''), ActivitySettles, CompleteSignal None,
                            Resume :: (string option, unit, string) event]"
               and pre = "[]" and mid = "[]" and post = "[]" and v = "''a''" and v' = "''b''"
               and pre' = "[]" and mid' = "[]" and post' = "[]"
               and u = "Some ''a''" and u' = "None"
               and w = "[]" and activityArgs = "()"]
          s t s' t'
    by simp
qed

section \<open>Properties of \<^verbatim>\<open>iterativeLoop\<close>\<close>


lemma iterativeLoop_while_cases:
  "il_isDone s \<Longrightarrow> iterativeLoop_while s = s\<lparr>il_pc := Returned ()\<rparr>"
  "\<not> il_isDone s \<Longrightarrow> il_lastSubmission s = None \<Longrightarrow>
     iterativeLoop_while s = s\<lparr>il_pc := AwaitCondition ()\<rparr>"
  "\<not> il_isDone s \<Longrightarrow> il_lastSubmission s \<noteq> None \<Longrightarrow>
     iterativeLoop_while s = s\<lparr>il_lastSubmission := None, il_pc := AwaitCondition ()\<rparr>"
  by (simp_all add: iterativeLoop_while.simps [of s]
                    iterativeLoop_while.simps [of "s\<lparr>il_lastSubmission := None\<rparr>"])

lemma iterativeLoop_init:
  "iterativeLoop w =
     \<lparr> il_handlers = {SubmissionSignalDef, FinishSignalDef}, il_isDone = False,
       il_lastSubmission = None, il_pc = AwaitCondition (), il_world = w \<rparr>"
  by (simp add: iterativeLoop_def iterativeLoop_while_cases setHandler_def)

lemma iterativeLoop_resume_fields:
  "il_handlers (iterativeLoop_resume s) = il_handlers s"
  "il_isDone (iterativeLoop_resume s) = il_isDone s"
  "il_world (iterativeLoop_resume s) = il_world s"
  by (cases "il_isDone s"; cases "il_lastSubmission s = None";
      simp add: iterativeLoop_resume_def iterativeLoop_while_cases split: pc.splits)+

lemma iterativeLoop_resume_cases:
  "il_pc s = AwaitCondition () \<Longrightarrow> il_isDone s \<Longrightarrow>
     iterativeLoop_resume s = s\<lparr>il_pc := Returned ()\<rparr>"
  "il_pc s = AwaitCondition () \<Longrightarrow> \<not> il_isDone s \<Longrightarrow> il_lastSubmission s = None \<Longrightarrow>
     iterativeLoop_resume s = s"
  "il_pc s = AwaitCondition () \<Longrightarrow> \<not> il_isDone s \<Longrightarrow> il_lastSubmission s \<noteq> None \<Longrightarrow>
     iterativeLoop_resume s = s\<lparr>il_lastSubmission := None, il_pc := AwaitCondition ()\<rparr>"
  "il_pc s = Returned () \<Longrightarrow> iterativeLoop_resume s = s"
  by (simp_all add: iterativeLoop_resume_def iterativeLoop_while_cases)

lemma iterativeLoop_run_snoc:
  "iterativeLoop_run os (evs @ [ev]) s = iterativeLoop_step os ev (iterativeLoop_run os evs s)"
  by (simp add: iterativeLoop_run_def)

lemma iterativeLoop_run_append:
  "iterativeLoop_run os (evs @ evs') s = iterativeLoop_run os evs' (iterativeLoop_run os evs s)"
  by (simp add: iterativeLoop_run_def)

lemma iterativeLoop_run_Cons:
  "iterativeLoop_run os (ev # evs) s = iterativeLoop_run os evs (iterativeLoop_step os ev s)"
  by (simp add: iterativeLoop_run_def)

lemma iterativeLoop_run_Nil: "iterativeLoop_run os [] s = s"
  by (simp add: iterativeLoop_run_def)

lemma iterativeLoop_handlers:
  "il_handlers (iterativeLoop_run os evs (iterativeLoop w)) =
     {SubmissionSignalDef, FinishSignalDef}"
proof (induction evs rule: rev_induct)
  case Nil
  show ?case by (simp add: iterativeLoop_run_def iterativeLoop_init)
next
  case (snoc ev evs)
  then show ?case
    by (cases ev)
       (simp_all add: iterativeLoop_run_snoc iterativeLoop_resume_fields
                      iterativeLoop_finishHandler_def iterativeLoop_submissionHandler_def)
qed

lemma iterativeLoop_isDone:
  "il_isDone (iterativeLoop_run os evs (iterativeLoop w)) \<longleftrightarrow> (\<exists>v. FinishSignal v \<in> set evs)"
proof (induction evs rule: rev_induct)
  case Nil
  show ?case by (simp add: iterativeLoop_run_def iterativeLoop_init)
next
  case (snoc ev evs)
  then show ?case
    by (cases ev)
       (auto simp: iterativeLoop_run_snoc iterativeLoop_resume_fields
                   iterativeLoop_finishHandler_def iterativeLoop_submissionHandler_def
                   iterativeLoop_handlers)
qed

lemma submissions_snoc: "submissions (evs @ [ev]) = submissions evs @ submissions [ev]"
  by (induction evs rule: submissions.induct) simp_all

lemma iterativeLoop_world:
  "il_world (iterativeLoop_run os evs (iterativeLoop w)) =
     foldl (\<lambda>w sub. callback os sub w) w (submissions evs)"
proof (induction evs rule: rev_induct)
  case Nil
  show ?case by (simp add: iterativeLoop_run_def iterativeLoop_init)
next
  case (snoc ev evs)
  then show ?case
    by (cases ev)
       (simp_all add: iterativeLoop_run_snoc iterativeLoop_resume_fields submissions_snoc
                      iterativeLoop_finishHandler_def iterativeLoop_submissionHandler_def
                      iterativeLoop_handlers)
qed

lemma iterativeLoop_pc:
  "il_pc (iterativeLoop_run os evs (iterativeLoop w)) = AwaitCondition () \<or>
   il_pc (iterativeLoop_run os evs (iterativeLoop w)) = Returned () \<and>
     il_isDone (iterativeLoop_run os evs (iterativeLoop w))"
proof (induction evs rule: rev_induct)
  case Nil
  show ?case by (simp add: iterativeLoop_run_def iterativeLoop_init)
next
  case (snoc ev evs)
  let ?s = "iterativeLoop_run os evs (iterativeLoop w)"
  show ?case
  proof (cases ev)
    case Resume
    show ?thesis
    proof (cases "il_pc ?s = AwaitCondition ()")
      case True
      then show ?thesis
        using Resume iterativeLoop_resume_cases(1-3) [of ?s]
        by (cases "il_isDone ?s"; cases "il_lastSubmission ?s = None")
           (simp_all add: iterativeLoop_run_snoc)
    next
      case False
      then have "il_pc ?s = Returned ()" "il_isDone ?s"
        using snoc by simp_all
      then show ?thesis
        using Resume by (simp add: iterativeLoop_run_snoc iterativeLoop_resume_cases(4))
    qed
  qed (use snoc in \<open>auto simp: iterativeLoop_run_snoc iterativeLoop_finishHandler_def
                        iterativeLoop_submissionHandler_def\<close>)
qed

lemma iterativeLoop_returns:
  assumes "FinishSignal v \<in> set evs"
  shows "il_pc (iterativeLoop_run os (evs @ [Resume]) (iterativeLoop w)) = Returned ()"
proof -
  let ?s = "iterativeLoop_run os evs (iterativeLoop w)"
  have d: "il_isDone ?s"
    using assms by (auto simp: iterativeLoop_isDone)
  show ?thesis
    using iterativeLoop_pc [of os evs w] d
      iterativeLoop_resume_cases(1) [of ?s] iterativeLoop_resume_cases(4) [of ?s]
    by (auto simp: iterativeLoop_run_snoc)
qed

text \<open>
  C3. Whatever the schedule, the world after it is the initial one with \<^verbatim>\<open>onSubmission\<close>
  applied to the payloads of its submission signals, once each and in delivery order.
  \<^verbatim>\<open>iterativeLoop\<close> has returned only if a finish signal was delivered; as long as none was,
  the loop is suspended, however many submissions were delivered and consumed. When a finish
  signal follows any schedule, also an empty one, the next run of the body returns.
\<close>

theorem iterativeLoop_runs_until_finish:
  fixes evs pre :: "('fin, 'sub option, 'prog) event list"
    and w :: 'w
  shows
  "il_world (iterativeLoop_run onSubmission evs (iterativeLoop w)) =
     foldl (\<lambda>w sub. callback onSubmission sub w) w (submissions evs) \<and>
   (il_pc (iterativeLoop_run onSubmission evs (iterativeLoop w)) = Returned () \<longrightarrow>
      (\<exists>v. FinishSignal v \<in> set evs)) \<and>
   ((\<forall>v. FinishSignal v \<notin> set evs) \<longrightarrow>
      il_pc (iterativeLoop_run onSubmission evs (iterativeLoop w)) = AwaitCondition ()) \<and>
   il_pc (iterativeLoop_run onSubmission (pre @ [FinishSignal f, Resume]) (iterativeLoop w)) =
     Returned () \<and>
   il_world (iterativeLoop_run onSubmission (pre @ [FinishSignal f, Resume]) (iterativeLoop w)) =
     foldl (\<lambda>w sub. callback onSubmission sub w) w (submissions pre)"
proof -
  have ret: "il_pc (iterativeLoop_run onSubmission (pre @ [FinishSignal f, Resume])
                      (iterativeLoop w)) = Returned ()"
    using iterativeLoop_returns [of f "pre @ [FinishSignal f]" onSubmission w] by simp
  have subs: "submissions (pre @ [FinishSignal f, Resume]) = submissions pre"
    using submissions_snoc [of "pre @ [FinishSignal f]" Resume]
      submissions_snoc [of pre "FinishSignal f"]
    by simp
  show ?thesis
    using iterativeLoop_pc [of onSubmission evs w] iterativeLoop_isDone [of onSubmission evs w]
      ret subs
    by (auto simp: iterativeLoop_world)
qed

theorem iterativeLoop_runs_until_finish_witness:
  "(\<forall>v. FinishSignal v \<notin> set [SubmissionSignal (Some ''s1''), Resume, SubmissionSignal (Some ''s2''),
                                   SubmissionSignal (Some ''s3'') :: (unit, string option, unit) event]) \<and>
   il_pc (iterativeLoop_run (Some (\<lambda>sub w. w @ [sub]))
            [SubmissionSignal (Some ''s1''), Resume, SubmissionSignal (Some ''s2''),
             SubmissionSignal (Some ''s3'') :: (unit, string option, unit) event]
            (iterativeLoop [])) = AwaitCondition () \<and>
   il_pc (iterativeLoop_run (Some (\<lambda>sub w. w @ [sub]))
            ([SubmissionSignal (Some ''s1''), Resume, SubmissionSignal (Some ''s2''),
              SubmissionSignal (Some ''s3'')] @ [FinishSignal (), Resume :: (unit, string option, unit) event])
            (iterativeLoop [])) = Returned () \<and>
   il_world (iterativeLoop_run (Some (\<lambda>sub w. w @ [sub]))
            ([SubmissionSignal (Some ''s1''), Resume, SubmissionSignal (Some ''s2''),
              SubmissionSignal (Some ''s3'')] @ [FinishSignal (), Resume :: (unit, string option, unit) event])
            (iterativeLoop [])) = [Some ''s1'', Some ''s2'', Some ''s3'']"
  using iterativeLoop_runs_until_finish
          [where onSubmission = "Some (\<lambda>sub w. w @ [sub])"
             and evs = "[SubmissionSignal (Some ''s1''), Resume, SubmissionSignal (Some ''s2''),
                         SubmissionSignal (Some ''s3'') :: (unit, string option, unit) event]"
             and pre = "[SubmissionSignal (Some ''s1''), Resume, SubmissionSignal (Some ''s2''),
                         SubmissionSignal (Some ''s3'') :: (unit, string option, unit) event]"
             and w = "[] :: string option list" and f = "()"]
  by (simp add: callback_def)

lemma iterativeLoop_resume_world:
  "iterativeLoop_resume (s\<lparr>il_world := x\<rparr>) = (iterativeLoop_resume s)\<lparr>il_world := x\<rparr>"
  by (cases "il_isDone s"; cases "il_lastSubmission s = None")
     (simp_all add: iterativeLoop_resume_def iterativeLoop_while_cases split: pc.splits)

text \<open>
  C4. In any state that an invocation of \<^verbatim>\<open>iterativeLoop\<close> reaches, let \<open>s1\<close> and then \<open>s2\<close>
  be delivered with no run of the body in between. Then \<^verbatim>\<open>onSubmission\<close> has been called for
  \<open>s1\<close> and then for \<open>s2\<close>, and the slot holds \<open>s2\<close>. Apart from the effect of the callbacks
  on the world, the state is the one after the delivery of \<open>s2\<close> alone, and it stays so when
  the body runs next: \<open>s1\<close> is not seen again. When no finish signal has been delivered, this
  run of the body leaves the slot empty and the loop suspended, and one more run changes
  nothing: two submissions, at most one wake.
\<close>

theorem iterativeLoop_overwrites_pending:
  fixes evs :: "('fin, 'sub option, 'prog) event list"
    and w :: 'w
  shows
  "il_world (iterativeLoop_run onSubmission (evs @ [SubmissionSignal s1, SubmissionSignal s2])
               (iterativeLoop w)) =
     callback onSubmission s2
       (callback onSubmission s1 (il_world (iterativeLoop_run onSubmission evs (iterativeLoop w)))) \<and>
   il_lastSubmission (iterativeLoop_run onSubmission
                        (evs @ [SubmissionSignal s1, SubmissionSignal s2]) (iterativeLoop w)) =
     s2 \<and>
   iterativeLoop_run onSubmission (evs @ [SubmissionSignal s1, SubmissionSignal s2])
       (iterativeLoop w) =
     (iterativeLoop_run onSubmission (evs @ [SubmissionSignal s2]) (iterativeLoop w))
       \<lparr>il_world := callback onSubmission s2
          (callback onSubmission s1
             (il_world (iterativeLoop_run onSubmission evs (iterativeLoop w))))\<rparr> \<and>
   iterativeLoop_run onSubmission (evs @ [SubmissionSignal s1, SubmissionSignal s2, Resume])
       (iterativeLoop w) =
     (iterativeLoop_run onSubmission (evs @ [SubmissionSignal s2, Resume]) (iterativeLoop w))
       \<lparr>il_world := callback onSubmission s2
          (callback onSubmission s1
             (il_world (iterativeLoop_run onSubmission evs (iterativeLoop w))))\<rparr> \<and>
   ((\<forall>v. FinishSignal v \<notin> set evs) \<longrightarrow>
      il_lastSubmission (iterativeLoop_run onSubmission
                           (evs @ [SubmissionSignal s1, SubmissionSignal s2, Resume])
                           (iterativeLoop w)) = None \<and>
      il_pc (iterativeLoop_run onSubmission
               (evs @ [SubmissionSignal s1, SubmissionSignal s2, Resume]) (iterativeLoop w)) =
        AwaitCondition () \<and>
      iterativeLoop_run onSubmission
          (evs @ [SubmissionSignal s1, SubmissionSignal s2, Resume, Resume]) (iterativeLoop w) =
        iterativeLoop_run onSubmission
          (evs @ [SubmissionSignal s1, SubmissionSignal s2, Resume]) (iterativeLoop w))"
proof -
  let ?s = "iterativeLoop_run onSubmission evs (iterativeLoop w)"
  let ?x = "callback onSubmission s2 (callback onSubmission s1 (il_world ?s))"
  note hs = iterativeLoop_handlers [of onSubmission evs w]
  have two: "iterativeLoop_run onSubmission (evs @ [SubmissionSignal s1, SubmissionSignal s2])
               (iterativeLoop w) = ?s\<lparr>il_lastSubmission := s2, il_world := ?x\<rparr>"
    using hs
    by (simp add: iterativeLoop_run_append iterativeLoop_run_Cons iterativeLoop_run_Nil
                  iterativeLoop_submissionHandler_def)
  have one: "iterativeLoop_run onSubmission (evs @ [SubmissionSignal s2]) (iterativeLoop w) =
               ?s\<lparr>il_lastSubmission := s2,
                   il_world := callback onSubmission s2 (il_world ?s)\<rparr>"
    using hs
    by (simp add: iterativeLoop_run_append iterativeLoop_run_Cons iterativeLoop_run_Nil
                  iterativeLoop_submissionHandler_def)
  have same: "iterativeLoop_run onSubmission (evs @ [SubmissionSignal s1, SubmissionSignal s2])
                (iterativeLoop w) =
              (iterativeLoop_run onSubmission (evs @ [SubmissionSignal s2]) (iterativeLoop w))
                \<lparr>il_world := ?x\<rparr>"
    unfolding two one by simp
  have r3: "iterativeLoop_run onSubmission (evs @ [SubmissionSignal s1, SubmissionSignal s2, Resume])
              (iterativeLoop w) =
            iterativeLoop_resume
              (iterativeLoop_run onSubmission (evs @ [SubmissionSignal s1, SubmissionSignal s2])
                 (iterativeLoop w))"
    using iterativeLoop_run_snoc
            [of onSubmission "evs @ [SubmissionSignal s1, SubmissionSignal s2]" Resume
                "iterativeLoop w"]
    by simp
  have r2: "iterativeLoop_run onSubmission (evs @ [SubmissionSignal s2, Resume])
              (iterativeLoop w) =
            iterativeLoop_resume
              (iterativeLoop_run onSubmission (evs @ [SubmissionSignal s2]) (iterativeLoop w))"
    using iterativeLoop_run_snoc
            [of onSubmission "evs @ [SubmissionSignal s2]" Resume "iterativeLoop w"]
    by simp
  have woken: "iterativeLoop_run onSubmission
                 (evs @ [SubmissionSignal s1, SubmissionSignal s2, Resume]) (iterativeLoop w) =
               (iterativeLoop_run onSubmission (evs @ [SubmissionSignal s2, Resume])
                  (iterativeLoop w))\<lparr>il_world := ?x\<rparr>"
    unfolding r3 r2 same by (rule iterativeLoop_resume_world)
  have live: "il_lastSubmission (iterativeLoop_run onSubmission
                           (evs @ [SubmissionSignal s1, SubmissionSignal s2, Resume])
                           (iterativeLoop w)) = None \<and>
      il_pc (iterativeLoop_run onSubmission
               (evs @ [SubmissionSignal s1, SubmissionSignal s2, Resume]) (iterativeLoop w)) =
        AwaitCondition () \<and>
      iterativeLoop_run onSubmission
          (evs @ [SubmissionSignal s1, SubmissionSignal s2, Resume, Resume]) (iterativeLoop w) =
        iterativeLoop_run onSubmission
          (evs @ [SubmissionSignal s1, SubmissionSignal s2, Resume]) (iterativeLoop w)"
    if nofin: "\<forall>v. FinishSignal v \<notin> set evs"
  proof -
    let ?t = "?s\<lparr>il_lastSubmission := s2, il_world := ?x\<rparr>"
    have nd: "\<not> il_isDone ?s"
      using nofin by (simp add: iterativeLoop_isDone)
    then have pc: "il_pc ?s = AwaitCondition ()"
      using iterativeLoop_pc [of onSubmission evs w] by auto
    have t: "iterativeLoop_resume ?t = ?t\<lparr>il_lastSubmission := None, il_pc := AwaitCondition ()\<rparr>"
    proof (cases s2)
      case None
      then have "iterativeLoop_resume ?t = ?t"
        using nd pc by (intro iterativeLoop_resume_cases(2)) simp_all
      then show ?thesis
        using None pc by simp
    next
      case (Some x)
      then show ?thesis
        using nd pc by (intro iterativeLoop_resume_cases(3)) simp_all
    qed
    have t': "iterativeLoop_resume (?t\<lparr>il_lastSubmission := None, il_pc := AwaitCondition ()\<rparr>) =
              ?t\<lparr>il_lastSubmission := None, il_pc := AwaitCondition ()\<rparr>"
      using nd by (intro iterativeLoop_resume_cases(2)) simp_all
    have r4: "iterativeLoop_run onSubmission
                (evs @ [SubmissionSignal s1, SubmissionSignal s2, Resume, Resume]) (iterativeLoop w) =
              iterativeLoop_resume (iterativeLoop_run onSubmission
                (evs @ [SubmissionSignal s1, SubmissionSignal s2, Resume]) (iterativeLoop w))"
      using iterativeLoop_run_snoc
              [of onSubmission "evs @ [SubmissionSignal s1, SubmissionSignal s2, Resume]" Resume
                  "iterativeLoop w"]
      by simp
    show ?thesis
      unfolding r4 unfolding r3 two t t' by simp
  qed
  have "il_world (iterativeLoop_run onSubmission (evs @ [SubmissionSignal s1, SubmissionSignal s2])
               (iterativeLoop w)) = ?x"
    "il_lastSubmission (iterativeLoop_run onSubmission
                        (evs @ [SubmissionSignal s1, SubmissionSignal s2]) (iterativeLoop w)) =
       s2"
    unfolding two by simp_all
  then show ?thesis
    using same woken live by blast
qed


theorem iterativeLoop_overwrites_pending_witness:
  "(\<forall>v. FinishSignal v \<notin> set ([] :: (unit, string option, unit) event list)) \<and>
   il_world (iterativeLoop_run (Some (\<lambda>sub w. w @ [sub]))
               ([] @ [SubmissionSignal (Some ''s1''), SubmissionSignal (Some ''s2'') :: (unit, string option, unit) event])
               (iterativeLoop [])) = [Some ''s1'', Some ''s2''] \<and>
   il_lastSubmission (iterativeLoop_run (Some (\<lambda>sub w. w @ [sub]))
               ([] @ [SubmissionSignal (Some ''s1''), SubmissionSignal (Some ''s2'') :: (unit, string option, unit) event])
               (iterativeLoop [])) = Some ''s2'' \<and>
   il_lastSubmission (iterativeLoop_run (Some (\<lambda>sub w. w @ [sub]))
               ([] @ [SubmissionSignal (Some ''s1''), SubmissionSignal (Some ''s2''),
                      Resume :: (unit, string option, unit) event])
               (iterativeLoop [])) = None \<and>
   il_pc (iterativeLoop_run (Some (\<lambda>sub w. w @ [sub]))
               ([] @ [SubmissionSignal (Some ''s1''), SubmissionSignal (Some ''s2''),
                      Resume :: (unit, string option, unit) event])
               (iterativeLoop [])) = AwaitCondition ()"
proof -
  let ?os = "Some (\<lambda>sub w. w @ [sub]) :: (string option \<Rightarrow> string option list \<Rightarrow> string option list) option"
  let ?evs = "[] :: (unit, string option, unit) event list"
  let ?two = "iterativeLoop_run ?os (?evs @ [SubmissionSignal (Some ''s1''), SubmissionSignal (Some ''s2'')])
                (iterativeLoop [])"
  let ?woken = "iterativeLoop_run ?os
                  (?evs @ [SubmissionSignal (Some ''s1''), SubmissionSignal (Some ''s2''), Resume])
                  (iterativeLoop [])"
  have hyp: "\<forall>v. FinishSignal v \<notin> set ?evs"
    by simp
  have "il_world ?two =
          callback ?os (Some ''s2'') (callback ?os (Some ''s1'')
            (il_world (iterativeLoop_run ?os ?evs (iterativeLoop [])))) \<and>
        il_lastSubmission ?two = Some ''s2'' \<and>
        il_lastSubmission ?woken = None \<and> il_pc ?woken = AwaitCondition ()"
    using iterativeLoop_overwrites_pending
            [where onSubmission = ?os and evs = ?evs and w = "[] :: string option list"
               and ?s1.0 = "Some ''s1''" and ?s2.0 = "Some ''s2''"]
          hyp
    by blast
  then show ?thesis
    using hyp by (simp add: callback_def iterativeLoop_run_Nil iterativeLoop_init)
qed

text \<open>
  C10. The submission handler of \<^verbatim>\<open>iterativeLoop\<close> does not look at the flag: in a state
  reached after a finish signal, a submission signal still stores its payload in the slot
  and still calls \<^verbatim>\<open>onSubmission\<close>; the next run of the body returns and leaves the payload
  in the slot, unconsumed. In \<^verbatim>\<open>progressRequest\<close>, in a state reached after a complete signal,
  an update signal leaves the state as it is.
\<close>

theorem iterativeLoop_submission_not_guarded:
  fixes evs :: "('fin, 'sub option, 'prog) event list"
    and evs' :: "('pfin option, 'psub, 'pprog) event list"
    and w :: 'w and w' :: 'v
    and startLongJobActivity :: "'args \<Rightarrow> 'e + 'ar"
  shows
  "(FinishSignal v \<in> set evs \<longrightarrow>
      il_isDone (iterativeLoop_run onSubmission evs (iterativeLoop w)) \<and>
      il_lastSubmission (iterativeLoop_run onSubmission (evs @ [SubmissionSignal sub])
                           (iterativeLoop w)) = sub \<and>
      il_world (iterativeLoop_run onSubmission (evs @ [SubmissionSignal sub]) (iterativeLoop w)) =
        callback onSubmission sub
          (il_world (iterativeLoop_run onSubmission evs (iterativeLoop w))) \<and>
      il_pc (iterativeLoop_run onSubmission (evs @ [SubmissionSignal sub, Resume])
               (iterativeLoop w)) = Returned () \<and>
      il_lastSubmission (iterativeLoop_run onSubmission (evs @ [SubmissionSignal sub, Resume])
                           (iterativeLoop w)) = sub) \<and>
   (CompleteSignal f \<in> set evs' \<longrightarrow>
      pr_isDone (progressRequest_run startLongJobActivity onStarted onProgress evs'
                   (progressRequest activityArgs w')) \<and>
      progressRequest_run startLongJobActivity onStarted onProgress (evs' @ [UpdateSignal p])
          (progressRequest activityArgs w') =
        progressRequest_run startLongJobActivity onStarted onProgress evs'
          (progressRequest activityArgs w'))"
proof -
  have il: "il_isDone (iterativeLoop_run onSubmission evs (iterativeLoop w)) \<and>
      il_lastSubmission (iterativeLoop_run onSubmission (evs @ [SubmissionSignal sub])
                           (iterativeLoop w)) = sub \<and>
      il_world (iterativeLoop_run onSubmission (evs @ [SubmissionSignal sub]) (iterativeLoop w)) =
        callback onSubmission sub
          (il_world (iterativeLoop_run onSubmission evs (iterativeLoop w))) \<and>
      il_pc (iterativeLoop_run onSubmission (evs @ [SubmissionSignal sub, Resume])
               (iterativeLoop w)) = Returned () \<and>
      il_lastSubmission (iterativeLoop_run onSubmission (evs @ [SubmissionSignal sub, Resume])
                           (iterativeLoop w)) = sub"
    if fin: "FinishSignal v \<in> set evs"
  proof -
    let ?s = "iterativeLoop_run onSubmission evs (iterativeLoop w)"
    let ?t = "iterativeLoop_run onSubmission (evs @ [SubmissionSignal sub]) (iterativeLoop w)"
    have d: "il_isDone ?s"
      using fin by (auto simp: iterativeLoop_isDone)
    have t: "?t = ?s\<lparr>il_lastSubmission := sub,
                      il_world := callback onSubmission sub (il_world ?s)\<rparr>"
      using iterativeLoop_handlers [of onSubmission evs w]
      by (simp add: iterativeLoop_run_snoc iterativeLoop_submissionHandler_def)
    have dt: "il_isDone ?t" "il_lastSubmission ?t = sub"
      using d by (simp_all add: t)
    have r: "iterativeLoop_run onSubmission (evs @ [SubmissionSignal sub, Resume])
               (iterativeLoop w) = iterativeLoop_resume ?t"
      using iterativeLoop_run_snoc
              [of onSubmission "evs @ [SubmissionSignal sub]" Resume "iterativeLoop w"]
      by simp
    have "iterativeLoop_resume ?t = ?t\<lparr>il_pc := Returned ()\<rparr>"
      using iterativeLoop_pc [of onSubmission "evs @ [SubmissionSignal sub]" w] dt(1)
        iterativeLoop_resume_cases(1) [of ?t] iterativeLoop_resume_cases(4) [of ?t]
      by auto
    then have "il_pc (iterativeLoop_resume ?t) = Returned ()"
      "il_lastSubmission (iterativeLoop_resume ?t) = sub"
      using dt(2) by simp_all
    then show ?thesis
      unfolding r using d t by simp
  qed
  have pr: "pr_isDone (progressRequest_run startLongJobActivity onStarted onProgress evs'
                   (progressRequest activityArgs w')) \<and>
      progressRequest_run startLongJobActivity onStarted onProgress (evs' @ [UpdateSignal p])
          (progressRequest activityArgs w') =
        progressRequest_run startLongJobActivity onStarted onProgress evs'
          (progressRequest activityArgs w')"
    if "CompleteSignal f \<in> set evs'"
  proof -
    have "first_complete evs' \<noteq> None"
      using that by (auto simp: first_complete_None)
    then have "pr_isDone (progressRequest_run startLongJobActivity onStarted onProgress evs'
                   (progressRequest activityArgs w'))"
      using progressRequest_flag_and_slot
              [of startLongJobActivity onStarted onProgress evs' activityArgs w']
      by simp
    then show ?thesis
      by (simp add: progressRequest_run_snoc progressRequest_updateHandler_def)
  qed
  show ?thesis
    using il pr by blast
qed

theorem iterativeLoop_submission_not_guarded_witness:
  "FinishSignal () \<in> set [FinishSignal () :: (unit, string option, string) event] \<and>
   il_world (iterativeLoop_run (Some (\<lambda>sub w. w @ [sub]))
               ([FinishSignal () :: (unit, string option, string) event] @ [SubmissionSignal (Some ''late'')])
               (iterativeLoop [])) = [Some ''late''] \<and>
   il_pc (iterativeLoop_run (Some (\<lambda>sub w. w @ [sub]))
            ([FinishSignal () :: (unit, string option, string) event] @
             [SubmissionSignal (Some ''late''), Resume])
            (iterativeLoop [])) = Returned () \<and>
   il_lastSubmission (iterativeLoop_run (Some (\<lambda>sub w. w @ [sub]))
            ([FinishSignal () :: (unit, string option, string) event] @
             [SubmissionSignal (Some ''late''), Resume])
            (iterativeLoop [])) = Some ''late'' \<and>
   CompleteSignal (Some ()) \<in> set [CompleteSignal (Some ()) :: (unit option, string, string) event] \<and>
   pr_world (progressRequest_run (\<lambda>u::unit. Inr ''job-42'' :: unit + string)
               None (Some (\<lambda>p w. w @ [p]))
               ([CompleteSignal (Some ()) :: (unit option, string, string) event] @ [UpdateSignal ''late''])
               (progressRequest () [])) = []"
proof -
  have w: "pr_world (progressRequest_run (\<lambda>u::unit. Inr ''job-42'' :: unit + string)
               None (Some (\<lambda>p w. w @ [p]))
               [CompleteSignal (Some ()) :: (unit option, string, string) event]
               (progressRequest () [])) = []"
    by (simp add: progressRequest_run_def progressRequest_def setHandler_def
                  progressRequest_completeHandler_def)
  have w0: "il_world (iterativeLoop_run (Some (\<lambda>sub w. w @ [sub]))
               [FinishSignal () :: (unit, string option, string) event] (iterativeLoop [])) = []"
    by (simp add: iterativeLoop_run_def iterativeLoop_init iterativeLoop_finishHandler_def)
  show ?thesis
    using iterativeLoop_submission_not_guarded
          [where onSubmission = "Some (\<lambda>sub w. w @ [sub])"
             and evs = "[FinishSignal () :: (unit, string option, string) event]"
             and evs' = "[CompleteSignal (Some ()) :: (unit option, string, string) event]"
             and w = "[] :: string option list" and w' = "[] :: string list"
             and v = "()" and f = "Some ()" and sub = "Some ''late''" and p = "''late''"
             and startLongJobActivity = "\<lambda>u::unit. Inr ''job-42'' :: unit + string"
             and onStarted = None and onProgress = "Some (\<lambda>p w. w @ [p])"
             and activityArgs = "()"]
          w w0
    by (simp add: callback_def)
qed

end
